theory Spec2Isabelle
  imports Main "HOL-Library.Word" "HOL-Library.Char_ord" "HOL-Library.List_Lexorder"
    "HOL-Library.AList" "HOL-Library.Multiset"
begin

section \<open>Strings, runes and UTF-8\<close>

text \<open>
  A Go \<^verbatim>\<open>string\<close> is a sequence of bytes: it is modelled as \<^typ>\<open>string\<close>, a list of
  8-bit characters. Go compares strings byte by byte, which is the lexicographic order
  on \<^typ>\<open>char list\<close> (a proper prefix is smaller). A \<^verbatim>\<open>rune\<close> is a Unicode code
  point, modelled as a natural number.

  \<^verbatim>\<open>commonPrefix\<close> converts keys with \<^verbatim>\<open>[]rune(s)\<close> and back with
  \<^verbatim>\<open>string(r)\<close>. The language defines both through UTF-8: decoding yields
  \<^verbatim>\<open>0xFFFD\<close> of width one byte at every byte that does not start a well-formed
  sequence, encoding writes one to four bytes. The functions below follow
  \<^verbatim>\<open>utf8.DecodeRune\<close> (the table \<^verbatim>\<open>first\<close> with its accept ranges) and
  \<^verbatim>\<open>utf8.EncodeRune\<close>; masks and shifts are written as \<open>mod\<close>, \<open>div\<close> and
  multiplication by powers of two.
\<close>

type_synonym rune = nat

definition RuneError :: rune where
  "RuneError = 0xFFFD"

definition seqLen :: "nat \<Rightarrow> nat" where
  \<comment> \<open>width announced by a leading byte; 0 for a byte that cannot lead\<close>
  "seqLen s0 =
     (if s0 < 0x80 then 1
      else if s0 < 0xC2 then 0
      else if s0 < 0xE0 then 2
      else if s0 < 0xF0 then 3
      else if s0 < 0xF5 then 4
      else 0)"

definition acceptLo :: "nat \<Rightarrow> nat" where
  "acceptLo s0 = (if s0 = 0xE0 then 0xA0 else if s0 = 0xF0 then 0x90 else 0x80)"

definition acceptHi :: "nat \<Rightarrow> nat" where
  "acceptHi s0 = (if s0 = 0xED then 0x9F else if s0 = 0xF4 then 0x8F else 0xBF)"

definition decodeRune :: "nat list \<Rightarrow> rune \<times> nat" where
  "decodeRune s =
     (if length s < 1 then (RuneError, 0)
      else let s0 = s ! 0; sz = seqLen s0 in
        if sz = 1 then (s0, 1)
        else if sz = 0 then (RuneError, 1)
        else if length s < sz then (RuneError, 1)
        else let s1 = s ! 1 in
          if s1 < acceptLo s0 \<or> acceptHi s0 < s1 then (RuneError, 1)
          else if sz \<le> 2 then ((s0 mod 32) * 64 + s1 mod 64, 2)
          else let s2 = s ! 2 in
            if s2 < 0x80 \<or> 0xBF < s2 then (RuneError, 1)
            else if sz \<le> 3 then ((s0 mod 16) * 4096 + (s1 mod 64) * 64 + s2 mod 64, 3)
            else let s3 = s ! 3 in
              if s3 < 0x80 \<or> 0xBF < s3 then (RuneError, 1)
              else ((s0 mod 8) * 262144 + (s1 mod 64) * 4096 + (s2 mod 64) * 64
                      + s3 mod 64, 4))"

lemma decodeRune_width: "s \<noteq> [] \<Longrightarrow> 1 \<le> snd (decodeRune s)"
  by (cases s) (simp_all add: decodeRune_def Let_def)

function runesOf :: "nat list \<Rightarrow> rune list" where
  "runesOf s =
     (if s = [] then []
      else fst (decodeRune s) # runesOf (drop (snd (decodeRune s)) s))"
  by pat_completeness auto
termination
proof (relation "measure length")
  show "wf (measure length)" by simp
next
  fix s :: "nat list"
  assume "s \<noteq> []"
  with decodeRune_width [of s]
  show "(drop (snd (decodeRune s)) s, s) \<in> measure length"
    by (cases s) simp_all
qed

declare runesOf.simps [simp del]

definition encodeRune :: "rune \<Rightarrow> nat list" where
  "encodeRune r =
     (if r \<le> 0x7F then [r]
      else if r \<le> 0x7FF then [0xC0 + r div 64, 0x80 + r mod 64]
      else if 0x10FFFF < r \<or> (0xD800 \<le> r \<and> r \<le> 0xDFFF) then [0xEF, 0xBF, 0xBD]
      else if r \<le> 0xFFFF
        then [0xE0 + r div 4096, 0x80 + (r div 64) mod 64, 0x80 + r mod 64]
      else [0xF0 + r div 262144, 0x80 + (r div 4096) mod 64, 0x80 + (r div 64) mod 64,
            0x80 + r mod 64])"

definition toRunes :: "string \<Rightarrow> rune list" where
  \<comment> \<open>the conversion \<^verbatim>\<open>[]rune(s)\<close>\<close>
  "toRunes s = runesOf (map of_char s)"

definition fromRunes :: "rune list \<Rightarrow> string" where
  \<comment> \<open>the conversion \<^verbatim>\<open>string(r)\<close>\<close>
  "fromRunes rs = map char_of (concat (map encodeRune rs))"

definition validRune :: "rune \<Rightarrow> bool" where
  \<comment> \<open>a Unicode scalar value: no surrogate, at most \<^verbatim>\<open>utf8.MaxRune\<close>\<close>
  "validRune r \<longleftrightarrow> r < 0xD800 \<or> (0xE000 \<le> r \<and> r \<le> 0x10FFFF)"

definition validUTF8 :: "string \<Rightarrow> bool" where
  \<comment> \<open>the string survives the conversion to runes and back\<close>
  "validUTF8 s \<longleftrightarrow> fromRunes (toRunes s) = s"

section \<open>Documents\<close>

text \<open>
  The dynamic values a document holds (\<^verbatim>\<open>interface{}\<close>): the types listed at
  \<^verbatim>\<open>New\<close>, and \<open>VOther\<close> for a value of any other Go type, carrying the name that
  \<^verbatim>\<open>%T\<close> prints. A \<^verbatim>\<open>float64\<close> is kept as its 64 bits: the package never computes
  with one, it only hands it to \<^verbatim>\<open>strconv\<close> or converts it.

  A \<^verbatim>\<open>map[string]interface{}\<close> is an association list with distinct keys. The order of
  the list is the order in which a \<^verbatim>\<open>range\<close> over the map visits it, which Go leaves
  open: a statement about every list is a statement about every order.
\<close>

type_synonym float64 = "64 word"

datatype val =
    VNull
  | VBool bool
  | VFloat64 float64
  | VNumber string
  | VString string
  | VArray "val list"
  | VMap "(string \<times> val) list"
  | VOther string

type_synonym gomap = "(string \<times> val) list"

definition keys :: "gomap \<Rightarrow> string list" where
  "keys m = map fst m"

definition isMap :: "gomap \<Rightarrow> bool" where
  \<comment> \<open>well-formedness of one level: the keys of a Go map are unique\<close>
  "isMap m \<longleftrightarrow> distinct (keys m)"

definition store :: "gomap \<Rightarrow> string \<Rightarrow> val \<Rightarrow> gomap" where
  \<comment> \<open>the assignment \<^verbatim>\<open>m[k] = v\<close>\<close>
  "store m k v = AList.update k v m"

section \<open>Prefix compression\<close>

definition keySep :: rune where
  "keySep = 0x5F"

function scan :: "rune list \<Rightarrow> rune list \<Rightarrow> nat \<Rightarrow> nat \<Rightarrow> nat" where
  \<comment> \<open>\<^verbatim>\<open>for i < c && r1[i] == r2[i] { i++ }\<close>\<close>
  "scan r1 r2 c i = (if i < c \<and> r1 ! i = r2 ! i then scan r1 r2 c (i + 1) else i)"
  by pat_completeness auto
termination
  by (relation "measure (\<lambda>(r1, r2, c, i). c - i)") auto

declare scan.simps [simp del]

definition commonPrefix :: "gomap \<Rightarrow> string" where
  "commonPrefix m =
     (let n = length m in
      if n \<le> 1 then []
      else
        let x = sort (keys m);
            r1 = toRunes (x ! 0);
            r2 = toRunes (x ! (n - 1));
            c = min (length r1) (length r2);
            i = scan r1 r2 c 0
        in if i = 0 \<or> r1 ! (i - 1) \<noteq> keySep then [] else fromRunes (take i r1))"

text \<open>Names for three values of \<^verbatim>\<open>commonPrefix\<close>, used to state facts about it.\<close>

definition firstKey :: "gomap \<Rightarrow> string" where
  \<comment> \<open>\<^verbatim>\<open>x[0]\<close> in \<^verbatim>\<open>commonPrefix\<close>\<close>
  "firstKey m = sort (keys m) ! 0"

definition lastKey :: "gomap \<Rightarrow> string" where
  \<comment> \<open>\<^verbatim>\<open>x[n-1]\<close> in \<^verbatim>\<open>commonPrefix\<close>\<close>
  "lastKey m = sort (keys m) ! (length m - 1)"

definition cutAt :: "gomap \<Rightarrow> nat" where
  \<comment> \<open>the value of \<^verbatim>\<open>i\<close> when the loop of \<^verbatim>\<open>commonPrefix\<close> ends\<close>
  "cutAt m = scan (toRunes (firstKey m)) (toRunes (lastKey m))
             (min (length (toRunes (firstKey m))) (length (toRunes (lastKey m)))) 0"

definition TrimPrefix :: "string \<Rightarrow> string \<Rightarrow> string" where
  \<comment> \<open>\<^verbatim>\<open>strings.TrimPrefix\<close>\<close>
  "TrimPrefix s p = (if take (length p) s = p then drop (length p) s else s)"

definition simplify :: "gomap \<Rightarrow> gomap" where
  "simplify m =
     (let p = commonPrefix m in
      if p = [] then m
      else fold (\<lambda>(k, v) out. store out (TrimPrefix k p) v) m [])"

section \<open>Errors\<close>

text \<open>
  \<^verbatim>\<open>ErrNotFound\<close> is returned as it is. \<^verbatim>\<open>newErrOutOfRange(exp, got)\<close> wraps
  \<^verbatim>\<open>ErrOutOfRange\<close> with the names of the two types (\<^verbatim>\<open>%T\<close>). The errors of
  \<^verbatim>\<open>strconv\<close> (a \<^verbatim>\<open>*strconv.NumError\<close> with the function's name and
  \<^verbatim>\<open>ErrSyntax\<close> or \<^verbatim>\<open>ErrRange\<close>) and of \<^verbatim>\<open>time.Parse\<close> are passed on
  unchanged by the code, so they are values of the same type; \<open>Foreign\<close> is an error
  of \<^verbatim>\<open>encoding/json\<close> or \<^verbatim>\<open>encoding/xml\<close>, with its message.
\<close>

datatype strconvErr = ErrSyntax | ErrRange

datatype error =
    ErrNotFound
  | OutOfRange string string
  | NumError string strconvErr
  | TimeParseError
  | Foreign string

fun isErrNotFound :: "error \<Rightarrow> bool" where
  \<comment> \<open>\<^verbatim>\<open>errors.Is(err, ErrNotFound)\<close>\<close>
  "isErrNotFound ErrNotFound = True"
| "isErrNotFound _ = False"

fun isErrOutOfRange :: "error \<Rightarrow> bool" where
  \<comment> \<open>\<^verbatim>\<open>errors.Is(err, ErrOutOfRange)\<close>\<close>
  "isErrOutOfRange (OutOfRange _ _) = True"
| "isErrOutOfRange _ = False"

fun isNumError :: "error \<Rightarrow> bool" where
  \<comment> \<open>the error is a \<^verbatim>\<open>*strconv.NumError\<close>\<close>
  "isNumError (NumError _ _) = True"
| "isNumError _ = False"

fun typeName :: "val \<Rightarrow> string" where
  \<comment> \<open>what \<^verbatim>\<open>%T\<close> prints\<close>
  "typeName VNull = ''<nil>''"
| "typeName (VBool _) = ''bool''"
| "typeName (VFloat64 _) = ''float64''"
| "typeName (VNumber _) = ''json.Number''"
| "typeName (VString _) = ''string''"
| "typeName (VArray _) = ''[]interface {}''"
| "typeName (VMap _) = ''map[string]interface {}''"
| "typeName (VOther t) = t"

definition newErrOutOfRange :: "string \<Rightarrow> string \<Rightarrow> error" where
  \<comment> \<open>the arguments are the type names of \<^verbatim>\<open>exp\<close> and \<^verbatim>\<open>got\<close>\<close>
  "newErrOutOfRange exp got = OutOfRange exp got"

section \<open>Type coercion\<close>

text \<open>
  \<^verbatim>\<open>strconv.ParseBool\<close> is small enough to be written out. The other functions of
  \<^verbatim>\<open>strconv\<close> that the coercions call, and the conversions of a \<^verbatim>\<open>float64\<close> to an
  integer, are parameters: \<open>pf\<close> stands for \<^verbatim>\<open>ParseFloat(s, 64)\<close>, \<open>pi\<close> for
  \<^verbatim>\<open>ParseInt(s, 10, 64)\<close>, \<open>pu\<close> for \<^verbatim>\<open>ParseUint(s, 10, 64)\<close>, \<open>ti\<close> for
  \<^verbatim>\<open>int64(v)\<close> and \<open>tu\<close> for \<^verbatim>\<open>uint64(v)\<close>. A parser returns its value or the
  \<^verbatim>\<open>Err\<close> field of its \<^verbatim>\<open>NumError\<close>.
\<close>

definition ParseBool :: "string \<Rightarrow> error + bool" where
  "ParseBool str =
     (if str \<in> {''1'', ''t'', ''T'', ''true'', ''TRUE'', ''True''} then Inr True
      else if str \<in> {''0'', ''f'', ''F'', ''false'', ''FALSE'', ''False''} then Inr False
      else Inl (NumError ''ParseBool'' ErrSyntax))"

definition numError :: "string \<Rightarrow> strconvErr + 'a \<Rightarrow> error + 'a" where
  "numError fn r = (case r of Inl e \<Rightarrow> Inl (NumError fn e) | Inr v \<Rightarrow> Inr v)"

fun toBool :: "val \<Rightarrow> error + bool" where
  "toBool (VBool v) = Inr v"
| "toBool (VString v) = ParseBool v"
| "toBool v = Inl (newErrOutOfRange ''bool'' (typeName v))"

fun toFloat64 :: "(string \<Rightarrow> strconvErr + float64) \<Rightarrow> val \<Rightarrow> error + float64" where
  "toFloat64 pf (VFloat64 v) = Inr v"
| "toFloat64 pf (VNumber v) = numError ''ParseFloat'' (pf v)"
| "toFloat64 pf (VString v) = numError ''ParseFloat'' (pf v)"
| "toFloat64 pf v = Inl (newErrOutOfRange ''float64'' (typeName v))"

fun toInt64 :: "(float64 \<Rightarrow> 64 word) \<Rightarrow> (string \<Rightarrow> strconvErr + 64 word) \<Rightarrow> val
    \<Rightarrow> error + 64 word" where
  "toInt64 ti pi (VFloat64 v) = Inr (ti v)"
| "toInt64 ti pi (VNumber v) = numError ''ParseInt'' (pi v)"
| "toInt64 ti pi (VString v) = numError ''ParseInt'' (pi v)"
| "toInt64 ti pi v = Inl (newErrOutOfRange ''int64'' (typeName v))"

fun toString :: "val \<Rightarrow> error + string" where
  "toString (VString s) = Inr s"
| "toString m = Inl (newErrOutOfRange ''string'' (typeName m))"

fun toUint64 :: "(float64 \<Rightarrow> 64 word) \<Rightarrow> (string \<Rightarrow> strconvErr + 64 word) \<Rightarrow> val
    \<Rightarrow> error + 64 word" where
  "toUint64 tu pu (VFloat64 v) = Inr (tu v)"
| "toUint64 tu pu (VNumber v) = numError ''ParseUint'' (pu v)"
| "toUint64 tu pu (VString v) = numError ''ParseUint'' (pu v)"
| "toUint64 tu pu v = Inl (newErrOutOfRange ''uint64'' (typeName v))"

section \<open>The document and its accessors\<close>

record Name =
  Space :: string
  Local :: string

record Attr =
  Name :: Name
  Value :: string

text \<open>
  The field \<open>D\<close> is optional: \<open>None\<close> is the \<^verbatim>\<open>nil\<close> map, \<open>Some []\<close> a map that
  is present and empty.
\<close>

record D =
  D :: "gomap option"
  xmlArraySep :: string
  xmlAttributes :: "Attr list"
  xmlName :: string
  xmlns :: string

definition entries :: "D \<Rightarrow> gomap" where
  \<comment> \<open>the entries of \<^verbatim>\<open>d.D\<close>; a \<^verbatim>\<open>nil\<close> map has none\<close>
  "entries d = (case D d of None \<Rightarrow> [] | Some m \<Rightarrow> m)"

fun descend :: "val \<Rightarrow> string list \<Rightarrow> error + val" where
  \<comment> \<open>the loop of \<^verbatim>\<open>Lookup\<close>, from the current value \<open>v\<close> over the keys left\<close>
  "descend v [] = Inr v"
| "descend (VMap m) (k # ks) =
     (case map_of m k of
        None \<Rightarrow> Inl ErrNotFound
      | Some v \<Rightarrow> descend v ks)"
| "descend _ (k # ks) = Inl ErrNotFound"

definition Lookup :: "D \<Rightarrow> string list \<Rightarrow> error + val" where
  "Lookup d ks =
     (if length ks = 0 then Inl ErrNotFound
      else descend (VMap (entries d)) ks)"

definition Bool :: "D \<Rightarrow> string list \<Rightarrow> error + bool" where
  "Bool d ks = (case Lookup d ks of Inl err \<Rightarrow> Inl err | Inr m \<Rightarrow> toBool m)"

definition Float64 :: "(string \<Rightarrow> strconvErr + float64) \<Rightarrow> D \<Rightarrow> string list
    \<Rightarrow> error + float64" where
  "Float64 pf d ks = (case Lookup d ks of Inl err \<Rightarrow> Inl err | Inr m \<Rightarrow> toFloat64 pf m)"

definition Int64 :: "(float64 \<Rightarrow> 64 word) \<Rightarrow> (string \<Rightarrow> strconvErr + 64 word) \<Rightarrow> D
    \<Rightarrow> string list \<Rightarrow> error + 64 word" where
  "Int64 ti pi d ks = (case Lookup d ks of Inl err \<Rightarrow> Inl err | Inr m \<Rightarrow> toInt64 ti pi m)"

definition String :: "D \<Rightarrow> string list \<Rightarrow> error + string" where
  "String d ks = (case Lookup d ks of Inl err \<Rightarrow> Inl err | Inr m \<Rightarrow> toString m)"

fun toStrings :: "val list \<Rightarrow> error + string list" where
  \<comment> \<open>the loop of \<^verbatim>\<open>Strings\<close>: the first element that fails ends the call\<close>
  "toStrings [] = Inr []"
| "toStrings (v2 # vs) =
     (case toString v2 of
        Inl err \<Rightarrow> Inl err
      | Inr s \<Rightarrow> (case toStrings vs of Inl err \<Rightarrow> Inl err | Inr a \<Rightarrow> Inr (s # a)))"

definition Strings :: "D \<Rightarrow> string list \<Rightarrow> error + string list" where
  "Strings d ks =
     (case Lookup d ks of
        Inl err \<Rightarrow> Inl err
      | Inr m \<Rightarrow>
          (case m of
             VArray v \<Rightarrow> toStrings v
           | _ \<Rightarrow> Inl (newErrOutOfRange ''[]string'' ''[]interface {}'')))"

definition Time :: "(string \<Rightarrow> string \<Rightarrow> 't option) \<Rightarrow> D \<Rightarrow> string \<Rightarrow> string list
    \<Rightarrow> error + 't" where
  \<comment> \<open>\<open>tp\<close> stands for \<^verbatim>\<open>time.Parse\<close>; \<open>None\<close> is its parse error\<close>
  "Time tp d layout ks =
     (case Lookup d ks of
        Inl err \<Rightarrow> Inl err
      | Inr m \<Rightarrow>
          (case toString m of
             Inl err \<Rightarrow> Inl err
           | Inr s \<Rightarrow> (case tp layout s of None \<Rightarrow> Inl TimeParseError | Some t \<Rightarrow> Inr t)))"

definition Uint64 :: "(float64 \<Rightarrow> 64 word) \<Rightarrow> (string \<Rightarrow> strconvErr + 64 word) \<Rightarrow> D
    \<Rightarrow> string list \<Rightarrow> error + 64 word" where
  "Uint64 tu pu d ks = (case Lookup d ks of Inl err \<Rightarrow> Inl err | Inr m \<Rightarrow> toUint64 tu pu m)"

section \<open>Flattening\<close>

text \<open>
  \<^verbatim>\<open>naming.SnakeCase\<close> belongs to another module; it is the parameter \<open>sc\<close>. The set
  of ignored keys (\<^verbatim>\<open>map[string]struct{}\<close>) is a set of strings.
\<close>

definition levelSep :: string where
  "levelSep = '' ''"

definition rootName :: string where
  "rootName = ''''"

fun Join :: "string list \<Rightarrow> string \<Rightarrow> string" where
  \<comment> \<open>\<^verbatim>\<open>strings.Join\<close>\<close>
  "Join [] sep = []"
| "Join [a] sep = a"
| "Join (a # b # rest) sep = a @ sep @ Join (b # rest) sep"

fun flatten :: "(string \<Rightarrow> string) \<Rightarrow> gomap \<Rightarrow> string set \<Rightarrow> string \<Rightarrow> gomap \<Rightarrow> gomap" where
  \<comment> \<open>the loop of \<^verbatim>\<open>flatten\<close> over the entries left, \<open>out\<close> being the map built so far\<close>
  "flatten sc [] nots root out = out"
| "flatten sc ((k, VMap d) # rest) nots root out =
     (let fk = sc (root @ levelSep @ k) in
      if fk \<in> nots then flatten sc rest nots root out
      else flatten sc rest nots root
             (fold (\<lambda>(kf, vf) out. store out kf vf) (flatten sc d nots fk []) out))"
| "flatten sc ((k, d) # rest) nots root out =
     (let fk = sc (root @ levelSep @ k) in
      if fk \<in> nots then flatten sc rest nots root out
      else flatten sc rest nots root (store out fk d))"

definition Flatten :: "(string \<Rightarrow> string) \<Rightarrow> D \<Rightarrow> string list list \<Rightarrow> gomap option" where
  \<comment> \<open>\<open>None\<close> is the \<^verbatim>\<open>nil\<close> result\<close>
  "Flatten sc d ignoredKeys =
     (if length (entries d) = 0 then None
      else
        let nots = set (map (\<lambda>v. sc (Join v levelSep)) ignoredKeys)
        in Some (simplify (flatten sc (entries d) nots rootName [])))"

section \<open>Formatting a leaf\<close>

text \<open>\<open>ff\<close> stands for \<^verbatim>\<open>strconv.FormatFloat(d, 'g', -1, 64)\<close>.\<close>

definition FormatBool :: "bool \<Rightarrow> string" where
  "FormatBool b = (if b then ''true'' else ''false'')"

fun fmtString :: "(float64 \<Rightarrow> string) \<Rightarrow> val \<Rightarrow> string \<Rightarrow> string" where
  "fmtString ff (VArray d) sep = Join (map (\<lambda>v. fmtString ff v sep) d) sep"
| "fmtString ff (VBool d) sep = FormatBool d"
| "fmtString ff (VFloat64 d) sep = ff d"
| "fmtString ff (VString d) sep = d"
| "fmtString ff (VNumber d) sep = d"
| "fmtString ff _ sep = []"

section \<open>JSON\<close>

text \<open>
  \<^verbatim>\<open>UnmarshalJSON\<close> answers a \<^verbatim>\<open>nil\<close> slice itself and leaves every other one to
  \<^verbatim>\<open>encoding/json\<close>, the parameter \<open>dec\<close>: from the bytes and the map held so far it
  gives the error, if any, and the map afterwards.
\<close>

definition UnmarshalJSON :: "(string \<Rightarrow> gomap option \<Rightarrow> error option \<times> gomap option) \<Rightarrow> D
    \<Rightarrow> string option \<Rightarrow> error option \<times> D" where
  "UnmarshalJSON dec d b =
     (case b of
        None \<Rightarrow> (None, d\<lparr>D := None\<rparr>)
      | Some bs \<Rightarrow> (case dec bs (D d) of (err, m) \<Rightarrow> (err, d\<lparr>D := m\<rparr>)))"

section \<open>XML\<close>

text \<open>
  \<^verbatim>\<open>encoding/xml\<close> is not part of the package. Its encoder is a parameter: a record
  of the two methods the package calls, over a state \<open>'e\<close> that stands for what has been
  written. \<open>Encode\<close> is only ever called with a \<^verbatim>\<open>charData\<close>, so it takes the two
  fields of one. A decoder is represented by the tokens that its method \<^verbatim>\<open>Token\<close>
  returns until its first error, the end of the input included; \<open>Other\<close> is a comment,
  a processing instruction or a directive.
\<close>

datatype Token =
    StartElement Name "Attr list"
  | CharData string
  | EndElement Name
  | Other

record 'e Encoder =
  EncodeToken :: "'e \<Rightarrow> Token \<Rightarrow> error option \<times> 'e"
  Encode :: "'e \<Rightarrow> Name \<Rightarrow> string \<Rightarrow> error option \<times> 'e"

definition element :: "string \<Rightarrow> Name" where
  \<comment> \<open>\<^verbatim>\<open>xml.Name{Local: k}\<close>\<close>
  "element k = \<lparr>Space = [], Local = k\<rparr>"

fun marshallXML :: "'e Encoder \<Rightarrow> (float64 \<Rightarrow> string) \<Rightarrow> gomap \<Rightarrow> 'e \<Rightarrow> Name \<Rightarrow> Attr list
    \<Rightarrow> string \<Rightarrow> error option \<times> 'e"
  and marshalEntries :: "'e Encoder \<Rightarrow> (float64 \<Rightarrow> string) \<Rightarrow> gomap \<Rightarrow> 'e \<Rightarrow> string
    \<Rightarrow> error option \<times> 'e" where
  "marshallXML E ff m enc name attrs arraySep =
     (case EncodeToken E enc (StartElement name attrs) of
        (Some err, enc1) \<Rightarrow> (Some err, enc1)
      | (None, enc1) \<Rightarrow>
          (case marshalEntries E ff m enc1 arraySep of
             (Some err, enc2) \<Rightarrow> (Some err, enc2)
           | (None, enc2) \<Rightarrow> EncodeToken E enc2 (EndElement name)))"
| "marshalEntries E ff [] enc arraySep = (None, enc)"
| "marshalEntries E ff ((k, VMap d) # rest) enc arraySep =
     (case marshallXML E ff d enc (element k) [] arraySep of
        (Some err, enc1) \<Rightarrow> (Some err, enc1)
      | (None, enc1) \<Rightarrow> marshalEntries E ff rest enc1 arraySep)"
| "marshalEntries E ff ((k, v) # rest) enc arraySep =
     (case Encode E enc (element k) (fmtString ff v arraySep) of
        (Some err, enc1) \<Rightarrow> (Some err, enc1)
      | (None, enc1) \<Rightarrow> marshalEntries E ff rest enc1 arraySep)"

definition MarshalXML :: "'e Encoder \<Rightarrow> (float64 \<Rightarrow> string) \<Rightarrow> D \<Rightarrow> 'e \<Rightarrow> error option \<times> 'e" where
  "MarshalXML E ff d enc =
     (if length (entries d) = 0 then (None, enc)
      else marshallXML E ff (entries d) enc \<lparr>Space = xmlns d, Local = xmlName d\<rparr>
             (xmlAttributes d) (xmlArraySep d))"










section \<open>Sample inputs\<close>

text \<open>
  \<^verbatim>\<open>New(m)\<close> with no option: the defaults \<^verbatim>\<open>DefaultXMLArraySep\<close> and
  \<^verbatim>\<open>DefaultXMLName\<close>, no attribute and no namespace.
\<close>

definition DefaultXMLName :: string where
  "DefaultXMLName = ''d''"

definition DefaultXMLArraySep :: string where
  "DefaultXMLArraySep = ''|''"

definition New :: "gomap option \<Rightarrow> D" where
  "New m = \<lparr>D = m, xmlArraySep = DefaultXMLArraySep, xmlAttributes = [],
            xmlName = DefaultXMLName, xmlns = ''''\<rparr>"

text \<open>
  A stand-in for \<^verbatim>\<open>naming.SnakeCase\<close>, used only to instantiate the parameter \<open>sc\<close>
  at concrete inputs: it drops leading spaces and turns the other spaces and colons
  into underscores.
\<close>

definition underscored :: "string \<Rightarrow> string" where
  "underscored s =
     map (\<lambda>c. if c = CHR '' '' \<or> c = CHR '':'' then CHR ''_'' else c)
       (dropWhile (\<lambda>c. c = CHR '' '') s)"

text \<open>
  An encoder that keeps the tokens it is given: \<^verbatim>\<open>EncodeToken\<close> appends its token,
  \<^verbatim>\<open>Encode\<close> of a \<^verbatim>\<open>charData\<close> appends the element it stands for. No token is
  written for an empty text, as a decoder reads none between \<^verbatim>\<open><k>\<close> and
  \<^verbatim>\<open></k>\<close>. It never fails.
\<close>

definition tokenWriter :: "Token list Encoder" where
  "tokenWriter =
     \<lparr>EncodeToken = (\<lambda>enc t. (None, enc @ [t])),
      Encode = (\<lambda>enc n s.
        (None, enc @ StartElement n [] # (if s = [] then [] else [CharData s]) @ [EndElement n]))\<rparr>"

section \<open>The round trip through XML\<close>




























section \<open>Lookup\<close>

lemma descend_error: "descend v ks = Inl e \<Longrightarrow> e = ErrNotFound"
  by (induction v ks rule: descend.induct) (auto split: option.splits)

lemma Lookup_error: "Lookup d ks = Inl e \<Longrightarrow> e = ErrNotFound"
  by (auto simp: Lookup_def dest: descend_error split: if_splits)

lemma descend_no_entries: "descend (VMap []) ks = Inl ErrNotFound \<or> ks = []"
  by (cases ks) simp_all

text \<open>
  Claim C6. \<^verbatim>\<open>Lookup\<close> with no key fails with \<^verbatim>\<open>ErrNotFound\<close> whatever the
  document holds; on a document without entries (a \<^verbatim>\<open>nil\<close> or an empty map) every
  non-empty path fails with \<^verbatim>\<open>ErrNotFound\<close>; during the descent a current value that
  is not a mapping, and a key that the current mapping does not hold, both fail with
  \<^verbatim>\<open>ErrNotFound\<close>; and \<^verbatim>\<open>ErrNotFound\<close> is the only error \<^verbatim>\<open>Lookup\<close> returns.
\<close>

theorem C6_lookup_not_found:
  "Lookup d [] = Inl ErrNotFound
   \<and> (ks \<noteq> [] \<and> entries d = [] \<longrightarrow> Lookup d ks = Inl ErrNotFound)
   \<and> ((\<forall>m. v \<noteq> VMap m) \<longrightarrow> descend v (k # ks) = Inl ErrNotFound)
   \<and> (map_of m k = None \<longrightarrow> descend (VMap m) (k # ks) = Inl ErrNotFound)
   \<and> (Lookup d ks = Inl e \<longrightarrow> e = ErrNotFound)"
proof (intro conjI impI)
  show "Lookup d [] = Inl ErrNotFound"
    by (simp add: Lookup_def)
next
  assume "ks \<noteq> [] \<and> entries d = []"
  then show "Lookup d ks = Inl ErrNotFound"
    using descend_no_entries [of ks] by (simp add: Lookup_def)
next
  assume "\<forall>m. v \<noteq> VMap m"
  then show "descend v (k # ks) = Inl ErrNotFound"
    by (cases v) simp_all
next
  assume "map_of m k = None"
  then show "descend (VMap m) (k # ks) = Inl ErrNotFound"
    by simp
next
  assume "Lookup d ks = Inl e"
  then show "e = ErrNotFound"
    by (rule Lookup_error)
qed

theorem C6_lookup_not_found_witness:
  "entries (New None) = [] \<and> Lookup (New None) [''object'', ''a''] = Inl ErrNotFound
   \<and> (\<forall>m. VString ''b'' \<noteq> VMap m) \<and> descend (VString ''b'') [''b'', ''c''] = Inl ErrNotFound
   \<and> map_of [(''a'', VString ''b'')] ''b'' = None
   \<and> descend (VMap [(''a'', VString ''b'')]) [''b'', ''c''] = Inl ErrNotFound
   \<and> Lookup (New (Some [(''object'', VMap [(''a'', VString ''b'')])])) [''object'', ''a'', ''b'']
        = Inl ErrNotFound"
  using C6_lookup_not_found [of "New None" "[''c'']" "VString ''b''" "''b''"
      "[(''a'', VString ''b'')]" ErrNotFound]
    C6_lookup_not_found [of "New None" "[''object'', ''a'']"]
    C6_lookup_not_found [of "New (Some [(''object'', VMap [(''a'', VString ''b'')])])"
      "[''object'', ''a'', ''b'']" _ _ _ ErrNotFound]
  by (simp add: New_def entries_def Lookup_def)

section \<open>The String coercion\<close>

text \<open>
  Claim C1, evaluated on the code. \<^verbatim>\<open>toString\<close> asserts \<^verbatim>\<open>m.(string)\<close> and nothing
  else, so a \<^verbatim>\<open>json.Number\<close> is answered with the wrong-data-type error, by
  \<^verbatim>\<open>toString\<close> and by \<^verbatim>\<open>Strings\<close> on an array holding one. The package's tests
  (\<^verbatim>\<open>TestToString\<close>, \<^verbatim>\<open>TestD_String\<close>, \<^verbatim>\<open>TestD_Strings\<close>, each with a case named
  Number) expect the number's text instead.
\<close>

theorem C1_number_rejected:
  "toString (VNumber ''-42'') = Inl (OutOfRange ''string'' ''json.Number'')
   \<and> Strings (New (Some [(''numbers'', VArray [VNumber ''1''])])) [''numbers'']
       = Inl (OutOfRange ''string'' ''json.Number'')"
  by (simp add: Strings_def Lookup_def entries_def New_def newErrOutOfRange_def)

section \<open>Flatten on the documented example\<close>

lemma commonPrefix_short: "length m \<le> 1 \<Longrightarrow> commonPrefix m = []"
  by (simp add: commonPrefix_def)

lemma simplify_short: "length m \<le> 1 \<Longrightarrow> simplify m = m"
  by (simp add: simplify_def commonPrefix_short)

text \<open>
  Claim C3. For the document \<^verbatim>\<open>{"object":{"a":"b","c":"d"}}\<close> and the ignored path
  \<^verbatim>\<open>["object","c"]\<close>, \<^verbatim>\<open>Flatten\<close> returns exactly \<^verbatim>\<open>{"object_a":"b"}\<close>, in
  either order of the inner map: the ignored branch is skipped, the surviving path is
  normalised to \<^verbatim>\<open>object_a\<close>, and nothing is trimmed since one key survives. The
  normaliser is the parameter \<open>sc\<close>; the three equations say what snake case is on the
  three strings the call passes to it.
\<close>

theorem C3_flatten_example:
  assumes "sc '' object'' = ''object''"
    and "sc ''object a'' = ''object_a''"
    and "sc ''object c'' = ''object_c''"
  shows "Flatten sc (New (Some [(''object'', VMap [(''a'', VString ''b''), (''c'', VString ''d'')])]))
           [[''object'', ''c'']] = Some [(''object_a'', VString ''b'')]
       \<and> Flatten sc (New (Some [(''object'', VMap [(''c'', VString ''d''), (''a'', VString ''b'')])]))
           [[''object'', ''c'']] = Some [(''object_a'', VString ''b'')]"
  using assms
  by (simp add: Flatten_def New_def entries_def levelSep_def rootName_def store_def
      simplify_short)

theorem C3_flatten_example_witness:
  "underscored '' object'' = ''object'' \<and> underscored ''object a'' = ''object_a''
   \<and> underscored ''object c'' = ''object_c''
   \<and> Flatten underscored
        (New (Some [(''object'', VMap [(''a'', VString ''b''), (''c'', VString ''d'')])]))
        [[''object'', ''c'']] = Some [(''object_a'', VString ''b'')]"
proof -
  have h: "underscored '' object'' = ''object''" "underscored ''object a'' = ''object_a''"
    "underscored ''object c'' = ''object_c''"
    by (simp_all add: underscored_def)
  from C3_flatten_example [OF h] h show ?thesis by simp
qed
section \<open>Prefix compression on the documented examples\<close>

lemma simplify_geek_name:
  "simplify [(''geek_name'', v1), (''geek_age'', v2)] = [(''name'', v1), (''age'', v2)]"
  by code_simp

lemma simplify_geek_age:
  "simplify [(''geek_age'', v2), (''geek_name'', v1)] = [(''age'', v2), (''name'', v1)]"
  by code_simp

lemma simplify_geek1:
  "simplify [(''geek1'', v1), (''geek2'', v2)] = [(''geek1'', v1), (''geek2'', v2)]"
  by code_simp

lemma simplify_geek2:
  "simplify [(''geek2'', v2), (''geek1'', v1)] = [(''geek2'', v2), (''geek1'', v1)]"
  by code_simp

section \<open>The formatting table\<close>

lemma Join_Cons: "Join (a # xs) sep = a @ concat (map (\<lambda>x. sep @ x) xs)"
  by (induction xs arbitrary: a) simp_all

text \<open>
  Claim C9. \<^verbatim>\<open>fmtString\<close> follows the table: a boolean gives \<^verbatim>\<open>true\<close> or
  \<^verbatim>\<open>false\<close>; a \<^verbatim>\<open>float64\<close> gives what \<^verbatim>\<open>strconv.FormatFloat(d, 'g', -1, 64)\<close>
  gives; a \<^verbatim>\<open>json.Number\<close> and a string give their own text; an array gives its
  elements, each formatted by the same function, with the separator between two of them;
  \<^verbatim>\<open>nil\<close>, a nested mapping and a value of any other type give the empty string.
\<close>

theorem C9_fmtString_table:
  "fmtString ff (VBool True) sep = ''true''
   \<and> fmtString ff (VBool False) sep = ''false''
   \<and> fmtString ff (VFloat64 f) sep = ff f
   \<and> fmtString ff (VNumber n) sep = n
   \<and> fmtString ff (VString s) sep = s
   \<and> fmtString ff (VArray []) sep = ''''
   \<and> fmtString ff (VArray (x # xs)) sep
       = fmtString ff x sep @ concat (map (\<lambda>v. sep @ fmtString ff v sep) xs)
   \<and> fmtString ff VNull sep = ''''
   \<and> fmtString ff (VMap m) sep = ''''
   \<and> fmtString ff (VOther t) sep = ''''"
  by (simp add: FormatBool_def Join_Cons comp_def)

section \<open>The empty document\<close>

lemma Flatten_None: "Flatten sc d ignoredKeys = None \<longleftrightarrow> entries d = []"
  by (simp add: Flatten_def Let_def)

text \<open>
  Claim C8. \<^verbatim>\<open>MarshalXML\<close> of a document whose map is \<^verbatim>\<open>nil\<close> or empty returns no
  error and leaves the encoder as it was: nothing is written. \<^verbatim>\<open>UnmarshalJSON\<close> of a
  \<^verbatim>\<open>nil\<close> payload returns no error and a document whose map is \<^verbatim>\<open>nil\<close>, and
  \<^verbatim>\<open>Flatten\<close> of that document is \<^verbatim>\<open>nil\<close>, which is not the empty map.
  \<^verbatim>\<open>Flatten\<close> returns \<^verbatim>\<open>nil\<close> exactly when the map has no entry.
\<close>

theorem C8_empty_document:
  "(D d = None \<or> D d = Some [] \<longrightarrow> MarshalXML E ff d enc = (None, enc))
   \<and> fst (UnmarshalJSON dec d None) = None
   \<and> D (snd (UnmarshalJSON dec d None)) = None
   \<and> Flatten sc (snd (UnmarshalJSON dec d None)) ignoredKeys = None
   \<and> None \<noteq> Some ([] :: gomap)
   \<and> (Flatten sc d ignoredKeys = None \<longleftrightarrow> D d = None \<or> D d = Some [])"
  by (auto simp: MarshalXML_def UnmarshalJSON_def Flatten_None entries_def
      split: option.splits)

theorem C8_empty_document_witness:
  "D (New None) = None \<and> MarshalXML tokenWriter (\<lambda>f. []) (New None) [] = (None, [])
   \<and> D (New (Some [])) = Some []
   \<and> MarshalXML tokenWriter (\<lambda>f. []) (New (Some [])) [] = (None, [])
   \<and> Flatten underscored (New None) [] = None
   \<and> Flatten underscored (New (Some [])) [] = None
   \<and> Flatten underscored (New (Some [(''key'', VNull)])) [] \<noteq> None"
  using C8_empty_document [of "New None" tokenWriter "\<lambda>f. []" "[]" "\<lambda>b m. (None, m)"
      underscored "[]"]
    C8_empty_document [of "New (Some [])" tokenWriter "\<lambda>f. []" "[]" "\<lambda>b m. (None, m)"
      underscored "[]"]
    C8_empty_document [of "New (Some [(''key'', VNull)])" tokenWriter "\<lambda>f. []" "[]"
      "\<lambda>b m. (None, m)" underscored "[]"]
  by (simp add: New_def)
section \<open>The errors of the typed getters\<close>

lemma ParseBool_error: "ParseBool s = Inl e \<Longrightarrow> e = NumError ''ParseBool'' ErrSyntax"
  by (simp add: ParseBool_def split: if_splits)

lemma numError_error: "numError fn r = Inl e \<Longrightarrow> \<exists>x. r = Inl x \<and> e = NumError fn x"
  by (cases r) (simp_all add: numError_def)

lemma toBool_error:
  "toBool v = Inl e \<Longrightarrow>
     (\<exists>s. v = VString s \<and> e = NumError ''ParseBool'' ErrSyntax)
     \<or> ((\<forall>b. v \<noteq> VBool b) \<and> (\<forall>s. v \<noteq> VString s) \<and> e = OutOfRange ''bool'' (typeName v))"
  by (cases v) (auto simp: newErrOutOfRange_def dest: ParseBool_error)

lemma toFloat64_error:
  "toFloat64 pf v = Inl e \<Longrightarrow>
     (\<exists>s x. (v = VString s \<or> v = VNumber s) \<and> pf s = Inl x \<and> e = NumError ''ParseFloat'' x)
     \<or> ((\<forall>f. v \<noteq> VFloat64 f) \<and> (\<forall>s. v \<noteq> VString s) \<and> (\<forall>s. v \<noteq> VNumber s)
         \<and> e = OutOfRange ''float64'' (typeName v))"
  by (cases v) (auto simp: newErrOutOfRange_def dest: numError_error)

lemma toInt64_error:
  "toInt64 ti pi v = Inl e \<Longrightarrow>
     (\<exists>s x. (v = VString s \<or> v = VNumber s) \<and> pi s = Inl x \<and> e = NumError ''ParseInt'' x)
     \<or> ((\<forall>f. v \<noteq> VFloat64 f) \<and> (\<forall>s. v \<noteq> VString s) \<and> (\<forall>s. v \<noteq> VNumber s)
         \<and> e = OutOfRange ''int64'' (typeName v))"
  by (cases v) (auto simp: newErrOutOfRange_def dest: numError_error)

lemma toUint64_error:
  "toUint64 tu pu v = Inl e \<Longrightarrow>
     (\<exists>s x. (v = VString s \<or> v = VNumber s) \<and> pu s = Inl x \<and> e = NumError ''ParseUint'' x)
     \<or> ((\<forall>f. v \<noteq> VFloat64 f) \<and> (\<forall>s. v \<noteq> VString s) \<and> (\<forall>s. v \<noteq> VNumber s)
         \<and> e = OutOfRange ''uint64'' (typeName v))"
  by (cases v) (auto simp: newErrOutOfRange_def dest: numError_error)

lemma toString_error:
  "toString v = Inl e \<Longrightarrow> (\<forall>s. v \<noteq> VString s) \<and> e = OutOfRange ''string'' (typeName v)"
  by (cases v) (auto simp: newErrOutOfRange_def)

lemma toStrings_error:
  "toStrings vs = Inl e \<Longrightarrow>
     \<exists>v \<in> set vs. (\<forall>s. v \<noteq> VString s) \<and> e = OutOfRange ''string'' (typeName v)"
  by (induction vs) (auto split: sum.splits dest: toString_error)

text \<open>
  Claim C7 as stated fails on the code: a string that is present and does not parse is
  answered with the error of \<^verbatim>\<open>strconv\<close>, which is neither \<^verbatim>\<open>ErrNotFound\<close> nor
  \<^verbatim>\<open>ErrOutOfRange\<close>. The empty string under \<^verbatim>\<open>toBool\<close> and \<^verbatim>\<open>Bool\<close> shows it
  (the case Invalid of \<^verbatim>\<open>TestToBool\<close> expects \<^verbatim>\<open>strconv.ErrSyntax\<close> there).
\<close>

theorem C7_parse_failure_counterexample:
  "toBool (VString '''') = Inl (NumError ''ParseBool'' ErrSyntax)
   \<and> Bool (New (Some [(''bool'', VString '''')])) [''bool'']
       = Inl (NumError ''ParseBool'' ErrSyntax)
   \<and> \<not> isErrNotFound (NumError ''ParseBool'' ErrSyntax)
   \<and> \<not> isErrOutOfRange (NumError ''ParseBool'' ErrSyntax)"
  by (simp add: ParseBool_def Bool_def Lookup_def entries_def New_def)

text \<open>
  Claim C7, amended. Every error of \<^verbatim>\<open>Bool\<close>, \<^verbatim>\<open>Float64\<close>, \<^verbatim>\<open>Int64\<close> and
  \<^verbatim>\<open>Uint64\<close> is \<^verbatim>\<open>ErrNotFound\<close>, wraps \<^verbatim>\<open>ErrOutOfRange\<close> or is the
  \<^verbatim>\<open>NumError\<close> of \<^verbatim>\<open>strconv\<close>; every error of \<^verbatim>\<open>String\<close> and \<^verbatim>\<open>Strings\<close> is
  one of the first two; \<^verbatim>\<open>Time\<close> adds the error of \<^verbatim>\<open>time.Parse\<close>. A string that
  is present and fails to parse as a boolean, a float or an integer gives the
  \<^verbatim>\<open>NumError\<close> of the parser, passed on as it is.
\<close>

theorem C7_error_kinds:
  "(Bool d ks = Inl e \<longrightarrow> isErrNotFound e \<or> isErrOutOfRange e \<or> isNumError e)
   \<and> (Float64 pf d ks = Inl e \<longrightarrow> isErrNotFound e \<or> isErrOutOfRange e \<or> isNumError e)
   \<and> (Int64 ti pi d ks = Inl e \<longrightarrow> isErrNotFound e \<or> isErrOutOfRange e \<or> isNumError e)
   \<and> (Uint64 tu pu d ks = Inl e \<longrightarrow> isErrNotFound e \<or> isErrOutOfRange e \<or> isNumError e)
   \<and> (String d ks = Inl e \<longrightarrow> isErrNotFound e \<or> isErrOutOfRange e)
   \<and> (Strings d ks = Inl e \<longrightarrow> isErrNotFound e \<or> isErrOutOfRange e)
   \<and> (Time tp d layout ks = Inl e \<longrightarrow>
        isErrNotFound e \<or> isErrOutOfRange e \<or> e = TimeParseError)
   \<and> (Lookup d ks = Inr (VString s) \<and> ParseBool s = Inl e \<longrightarrow>
        Bool d ks = Inl e \<and> e = NumError ''ParseBool'' ErrSyntax)
   \<and> (Lookup d ks = Inr (VString s) \<and> pf s = Inl x \<longrightarrow>
        Float64 pf d ks = Inl (NumError ''ParseFloat'' x))
   \<and> (Lookup d ks = Inr (VString s) \<and> pi s = Inl x \<longrightarrow>
        Int64 ti pi d ks = Inl (NumError ''ParseInt'' x))
   \<and> (Lookup d ks = Inr (VString s) \<and> pu s = Inl x \<longrightarrow>
        Uint64 tu pu d ks = Inl (NumError ''ParseUint'' x))"
proof (intro conjI impI)
  assume "Bool d ks = Inl e"
  then show "isErrNotFound e \<or> isErrOutOfRange e \<or> isNumError e"
    by (auto simp: Bool_def split: sum.splits dest: Lookup_error toBool_error)
next
  assume "Float64 pf d ks = Inl e"
  then show "isErrNotFound e \<or> isErrOutOfRange e \<or> isNumError e"
    by (auto simp: Float64_def split: sum.splits dest: Lookup_error dest!: toFloat64_error)
next
  assume "Int64 ti pi d ks = Inl e"
  then show "isErrNotFound e \<or> isErrOutOfRange e \<or> isNumError e"
    by (auto simp: Int64_def split: sum.splits dest: Lookup_error dest!: toInt64_error)
next
  assume "Uint64 tu pu d ks = Inl e"
  then show "isErrNotFound e \<or> isErrOutOfRange e \<or> isNumError e"
    by (auto simp: Uint64_def split: sum.splits dest: Lookup_error dest!: toUint64_error)
next
  assume "String d ks = Inl e"
  then show "isErrNotFound e \<or> isErrOutOfRange e"
    by (auto simp: String_def split: sum.splits dest: Lookup_error dest!: toString_error)
next
  assume "Strings d ks = Inl e"
  then show "isErrNotFound e \<or> isErrOutOfRange e"
    by (auto simp: Strings_def newErrOutOfRange_def split: sum.splits val.splits
        dest: Lookup_error dest!: toStrings_error)
next
  assume "Time tp d layout ks = Inl e"
  then show "isErrNotFound e \<or> isErrOutOfRange e \<or> e = TimeParseError"
    by (auto simp: Time_def split: sum.splits option.splits
        dest: Lookup_error dest!: toString_error)
next
  assume "Lookup d ks = Inr (VString s) \<and> ParseBool s = Inl e"
  then show "Bool d ks = Inl e"
    by (simp add: Bool_def)
next
  assume "Lookup d ks = Inr (VString s) \<and> ParseBool s = Inl e"
  then show "e = NumError ''ParseBool'' ErrSyntax"
    by (auto dest: ParseBool_error)
next
  assume "Lookup d ks = Inr (VString s) \<and> pf s = Inl x"
  then show "Float64 pf d ks = Inl (NumError ''ParseFloat'' x)"
    by (simp add: Float64_def numError_def)
next
  assume "Lookup d ks = Inr (VString s) \<and> pi s = Inl x"
  then show "Int64 ti pi d ks = Inl (NumError ''ParseInt'' x)"
    by (simp add: Int64_def numError_def)
next
  assume "Lookup d ks = Inr (VString s) \<and> pu s = Inl x"
  then show "Uint64 tu pu d ks = Inl (NumError ''ParseUint'' x)"
    by (simp add: Uint64_def numError_def)
qed

theorem C7_error_kinds_witness:
  "Lookup (New (Some [(''v'', VString ''''), (''n'', VNull)])) [''v''] = Inr (VString '''')
   \<and> ParseBool '''' = Inl (NumError ''ParseBool'' ErrSyntax)
   \<and> Bool (New (Some [(''v'', VString ''''), (''n'', VNull)])) [''v'']
       = Inl (NumError ''ParseBool'' ErrSyntax)
   \<and> Float64 (\<lambda>s. Inl ErrSyntax) (New (Some [(''v'', VString ''''), (''n'', VNull)])) [''v'']
       = Inl (NumError ''ParseFloat'' ErrSyntax)
   \<and> Int64 (\<lambda>f. 0) (\<lambda>s. Inl ErrSyntax) (New (Some [(''v'', VString ''''), (''n'', VNull)])) [''v'']
       = Inl (NumError ''ParseInt'' ErrSyntax)
   \<and> Uint64 (\<lambda>f. 0) (\<lambda>s. Inl ErrRange) (New (Some [(''v'', VString ''''), (''n'', VNull)])) [''v'']
       = Inl (NumError ''ParseUint'' ErrRange)
   \<and> String (New (Some [(''v'', VString ''''), (''n'', VNull)])) [''n'']
       = Inl (OutOfRange ''string'' ''<nil>'')
   \<and> isErrOutOfRange (OutOfRange ''string'' ''<nil>'')
   \<and> Strings (New (Some [(''v'', VString ''''), (''n'', VNull)])) [''oops''] = Inl ErrNotFound
   \<and> isErrNotFound ErrNotFound
   \<and> Time (\<lambda>layout s. None :: unit option) (New (Some [(''v'', VString ''''), (''n'', VNull)]))
        ''01/2006'' [''v''] = Inl TimeParseError"
  using C7_error_kinds [of "New (Some [(''v'', VString ''''), (''n'', VNull)])" "[''v'']"
      "NumError ''ParseBool'' ErrSyntax" "\<lambda>s. Inl ErrSyntax" "\<lambda>f. 0" "\<lambda>s. Inl ErrSyntax"
      "\<lambda>f. 0" "\<lambda>s. Inl ErrRange" "\<lambda>layout s. None :: unit option" "''01/2006''" "''''"
      ErrSyntax]
    C7_error_kinds [of "New (Some [(''v'', VString ''''), (''n'', VNull)])" "[''v'']"
      "NumError ''ParseBool'' ErrSyntax" "\<lambda>s. Inl ErrSyntax" "\<lambda>f. 0" "\<lambda>s. Inl ErrSyntax"
      "\<lambda>f. 0" "\<lambda>s. Inl ErrRange" "\<lambda>layout s. None :: unit option" "''01/2006''" "''''"
      ErrRange]
  by (simp add: New_def Lookup_def entries_def ParseBool_def String_def Strings_def Time_def
      newErrOutOfRange_def)
section \<open>UTF-8: decoding what was encoded\<close>

lemma mod_shift: "x < b \<Longrightarrow> (b * c + x) mod b = (x::nat)"
  by simp

lemma lead2_mod: "x < 32 \<Longrightarrow> (0xC0 + x) mod 32 = (x::nat)"
  using mod_shift [of x 32 6] by simp

lemma lead3_mod: "x < 16 \<Longrightarrow> (0xE0 + x) mod 16 = (x::nat)"
  using mod_shift [of x 16 14] by simp

lemma lead4_mod: "x < 8 \<Longrightarrow> (0xF0 + x) mod 8 = (x::nat)"
  using mod_shift [of x 8 30] by simp

lemma cont_mod: "(0x80 + x mod 64) mod 64 = (x::nat) mod 64"
  using mod_shift [of "x mod 64" 64 2] by simp

lemma cont_le: "(x::nat) mod 64 \<le> 63"
proof -
  have "x mod 64 < Suc 63" by simp
  then show ?thesis by (simp only: less_Suc_eq_le)
qed

lemma split64: "(q::nat) div 64 * (64 * k) + q mod 64 * k = q * k"
proof -
  have "q div 64 * (64 * k) + q mod 64 * k = (q div 64 * 64 + q mod 64) * k"
    by (simp only: add_mult_distrib mult.assoc)
  also have "\<dots> = q * k" by simp
  finally show ?thesis .
qed

lemma join3: "(r::nat) div 4096 * 4096 + (r div 64) mod 64 * 64 + r mod 64 = r"
proof -
  have a: "r div 4096 = (r div 64) div 64" by (simp add: div_mult2_eq)
  have "r div 4096 * 4096 + (r div 64) mod 64 * 64 = (r div 64) * 64"
    using split64 [of "r div 64" 64] by (simp add: a)
  then show ?thesis using div_mult_mod_eq [of r 64] by simp
qed

lemma join4:
  "(r::nat) div 262144 * 262144 + (r div 4096) mod 64 * 4096 + (r div 64) mod 64 * 64 + r mod 64
     = r"
proof -
  have a: "r div 262144 = (r div 4096) div 64" by (simp add: div_mult2_eq)
  have "r div 262144 * 262144 + (r div 4096) mod 64 * 4096 = (r div 4096) * 4096"
    using split64 [of "r div 4096" 4096] by (simp add: a)
  then show ?thesis using join3 [of r] by simp
qed

lemma decode1: "r \<le> 0x7F \<Longrightarrow> decodeRune (r # bs) = (r, 1)"
  by (simp add: decodeRune_def seqLen_def)

lemma decode2:
  assumes "0x7F < r" "r \<le> 0x7FF"
  shows "decodeRune ([0xC0 + r div 64, 0x80 + r mod 64] @ bs) = (r, 2)"
proof -
  have q: "r div 64 < 32" "2 \<le> r div 64"
    using assms by (simp_all add: div_less_iff_less_mult less_eq_div_iff_mult_less_eq)
  have s: "seqLen (0xC0 + r div 64) = 2"
    using q by (simp add: seqLen_def)
  have lo: "acceptLo (0xC0 + r div 64) = 0x80" "acceptHi (0xC0 + r div 64) = 0xBF"
    using q by (simp_all add: acceptLo_def acceptHi_def)
  have j: "r div 64 * 64 + r mod 64 = r" by simp
  show ?thesis
    by (simp add: decodeRune_def Let_def s lo lead2_mod [OF q(1)] cont_mod cont_le j)
qed


lemma decode3:
  assumes "0x7FF < r" "r \<le> 0xFFFF" "\<not> (0xD800 \<le> r \<and> r \<le> 0xDFFF)"
  shows "decodeRune ([0xE0 + r div 4096, 0x80 + (r div 64) mod 64, 0x80 + r mod 64] @ bs)
           = (r, 3)"
proof -
  have q: "r div 4096 < 16"
    using assms by (simp add: div_less_iff_less_mult)
  have s: "seqLen (0xE0 + r div 4096) = 3"
    using q by (simp add: seqLen_def)
  have m: "r mod 64 < 64" "(r div 64) mod 64 < 64" by simp_all
  have r: "r = r div 4096 * 4096 + (r div 64) mod 64 * 64 + r mod 64"
    by (simp only: join3)
  have lo: "acceptLo (0xE0 + r div 4096) \<le> 0x80 + (r div 64) mod 64"
  proof (cases "r div 4096 = 0")
    case True
    with r assms(1) m have "32 \<le> (r div 64) mod 64" by simp
    with True show ?thesis by (simp add: acceptLo_def)
  next
    case False
    with q show ?thesis by (simp add: acceptLo_def)
  qed
  have hi: "0x80 + (r div 64) mod 64 \<le> acceptHi (0xE0 + r div 4096)"
  proof (cases "r div 4096 = 13")
    case True
    with r assms(2,3) m have "(r div 64) mod 64 < 32" by simp
    with True show ?thesis by (simp add: acceptHi_def)
  next
    case False
    with q show ?thesis using m by (simp add: acceptHi_def)
  qed
  show ?thesis
    using lo hi
    by (simp add: decodeRune_def Let_def s lead3_mod [OF q] cont_mod cont_le join3 not_less)
qed

lemma decode4:
  assumes "0xFFFF < r" "r \<le> 0x10FFFF"
  shows "decodeRune ([0xF0 + r div 262144, 0x80 + (r div 4096) mod 64,
           0x80 + (r div 64) mod 64, 0x80 + r mod 64] @ bs) = (r, 4)"
proof -
  have q: "r div 262144 < 5"
    using assms by (simp add: div_less_iff_less_mult)
  then have q8: "r div 262144 < 8" by simp
  have s: "seqLen (0xF0 + r div 262144) = 4"
    using q by (simp add: seqLen_def)
  have m: "r mod 64 < 64" "(r div 64) mod 64 < 64" "(r div 4096) mod 64 < 64" by simp_all
  have r: "r = r div 262144 * 262144 + (r div 4096) mod 64 * 4096 + (r div 64) mod 64 * 64
             + r mod 64"
    by (simp only: join4)
  have lo: "acceptLo (0xF0 + r div 262144) \<le> 0x80 + (r div 4096) mod 64"
  proof (cases "r div 262144 = 0")
    case True
    with r assms(1) m have "16 \<le> (r div 4096) mod 64" by simp
    with True show ?thesis by (simp add: acceptLo_def)
  next
    case False
    with q show ?thesis by (simp add: acceptLo_def)
  qed
  have hi: "0x80 + (r div 4096) mod 64 \<le> acceptHi (0xF0 + r div 262144)"
  proof (cases "r div 262144 = 4")
    case True
    with r assms(2) m have "(r div 4096) mod 64 < 16" by simp
    with True show ?thesis by (simp add: acceptHi_def)
  next
    case False
    with q show ?thesis using m by (simp add: acceptHi_def)
  qed
  show ?thesis
    using lo hi
    by (simp add: decodeRune_def Let_def s lead4_mod [OF q8] cont_mod cont_le join4 not_less)
qed

lemma decode_encode:
  assumes "validRune r"
  shows "decodeRune (encodeRune r @ bs) = (r, length (encodeRune r))"
proof -
  consider "r \<le> 0x7F" | "0x7F < r" "r \<le> 0x7FF"
    | "0x7FF < r" "r \<le> 0xFFFF" "\<not> (0xD800 \<le> r \<and> r \<le> 0xDFFF)"
    | "0xFFFF < r" "r \<le> 0x10FFFF"
    using assms unfolding validRune_def by linarith
  then show ?thesis
  proof cases
    case 1
    then show ?thesis using decode1 [of r bs] by (simp add: encodeRune_def)
  next
    case 2
    then show ?thesis using decode2 [of r bs] by (simp add: encodeRune_def)
  next
    case 3
    then show ?thesis using decode3 [of r bs] by (auto simp: encodeRune_def numeral_3_eq_3)
  next
    case 4
    then have "length (encodeRune r) = 4" by (simp add: encodeRune_def)
    with 4 show ?thesis using decode4 [of r bs] by (simp add: encodeRune_def)
  qed
qed

section \<open>UTF-8: what decoding yields\<close>

lemma lead2_sub: "0xC0 \<le> s0 \<Longrightarrow> s0 < 0xE0 \<Longrightarrow> s0 mod 32 = s0 - (0xC0::nat)"
  using lead2_mod [of "s0 - 0xC0"] by simp

lemma lead3_sub: "0xE0 \<le> s0 \<Longrightarrow> s0 < 0xF0 \<Longrightarrow> s0 mod 16 = s0 - (0xE0::nat)"
  using lead3_mod [of "s0 - 0xE0"] by simp

lemma lead4_sub: "0xF0 \<le> s0 \<Longrightarrow> s0 < 0xF8 \<Longrightarrow> s0 mod 8 = s0 - (0xF0::nat)"
  using lead4_mod [of "s0 - 0xF0"] by simp

lemma cont_sub: "0x80 \<le> x \<Longrightarrow> x \<le> 0xBF \<Longrightarrow> x mod 64 = x - (0x80::nat)"
  using mod_shift [of "x - 0x80" 64 2] by simp

lemma valid2:
  assumes "0xC2 \<le> s0" "s0 < 0xE0" "0x80 \<le> s1" "s1 \<le> 0xBF"
  shows "validRune ((s0 mod 32) * 64 + s1 mod 64)"
proof -
  define a b where "a = s0 - 0xC0" and "b = s1 - 0x80"
  have a: "s0 mod 32 = a" "a < 32" using assms by (simp_all add: a_def lead2_sub)
  have b: "s1 mod 64 = b" "b < 64" using assms by (simp_all add: b_def cont_sub)
  show ?thesis using a(2) b(2) by (simp add: validRune_def a(1) b(1))
qed

lemma valid3:
  assumes "0xE0 \<le> s0" "s0 < 0xF0" "acceptLo s0 \<le> s1" "s1 \<le> acceptHi s0"
    and "0x80 \<le> s2" "s2 \<le> 0xBF"
  shows "validRune ((s0 mod 16) * 4096 + (s1 mod 64) * 64 + s2 mod 64)"
proof -
  define a b c where "a = s0 - 0xE0" and "b = s1 - 0x80" and "c = s2 - 0x80"
  have s1: "0x80 \<le> s1" "s1 \<le> 0xBF"
    using assms(3,4) by (simp_all add: acceptLo_def acceptHi_def split: if_splits)
  have a: "s0 mod 16 = a" "a < 16" using assms by (simp_all add: a_def lead3_sub)
  have b: "s1 mod 64 = b" "b < 64" using s1 by (simp_all add: b_def cont_sub)
  have c: "s2 mod 64 = c" "c < 64" using assms by (simp_all add: c_def cont_sub)
  have "b < 32" if "a = 13"
  proof -
    from that assms(1) have "s0 = 0xED" by (simp add: a_def)
    with assms(4) show ?thesis by (simp add: acceptHi_def b_def)
  qed
  then have "a * 4096 + b * 64 + c < 0xD800 \<or> 0xE000 \<le> a * 4096 + b * 64 + c"
    using a(2) b(2) c(2) by (cases "a = 13") auto
  moreover have "a * 4096 + b * 64 + c \<le> 0x10FFFF"
    using a(2) b(2) c(2) by simp
  ultimately show ?thesis by (simp add: validRune_def a(1) b(1) c(1))
qed

lemma valid4:
  assumes "0xF0 \<le> s0" "s0 < 0xF5" "acceptLo s0 \<le> s1" "s1 \<le> acceptHi s0"
    and "0x80 \<le> s2" "s2 \<le> 0xBF" "0x80 \<le> s3" "s3 \<le> 0xBF"
  shows "validRune ((s0 mod 8) * 262144 + (s1 mod 64) * 4096 + (s2 mod 64) * 64 + s3 mod 64)"
proof -
  define a b c d where "a = s0 - 0xF0" and "b = s1 - 0x80" and "c = s2 - 0x80"
    and "d = s3 - 0x80"
  have s1: "0x80 \<le> s1" "s1 \<le> 0xBF"
    using assms(3,4) by (simp_all add: acceptLo_def acceptHi_def split: if_splits)
  have a: "s0 mod 8 = a" "a < 5" using assms by (simp_all add: a_def lead4_sub)
  have b: "s1 mod 64 = b" "b < 64" using s1 by (simp_all add: b_def cont_sub)
  have c: "s2 mod 64 = c" "c < 64" using assms by (simp_all add: c_def cont_sub)
  have d: "s3 mod 64 = d" "d < 64" using assms by (simp_all add: d_def cont_sub)
  have lo: "16 \<le> b" if "a = 0"
  proof -
    from that assms(1) have "s0 = 0xF0" by (simp add: a_def)
    with assms(3) show ?thesis by (simp add: acceptLo_def b_def)
  qed
  have hi: "b < 16" if "a = 4"
  proof -
    from that assms(1) have "s0 = 0xF4" by (simp add: a_def)
    with assms(4) show ?thesis by (simp add: acceptHi_def b_def)
  qed
  have "0xE000 \<le> a * 262144 + b * 4096 + c * 64 + d"
    using lo by (cases "a = 0") auto
  moreover have "a * 262144 + b * 4096 + c * 64 + d \<le> 0x10FFFF"
    using hi a(2) b(2) c(2) d(2) by (cases "a = 4") auto
  ultimately show ?thesis by (simp add: validRune_def a(1) b(1) c(1) d(1))
qed

lemma decodeRune_valid: "validRune (fst (decodeRune s))"
proof -
  have e: "validRune RuneError" by (simp add: validRune_def RuneError_def)
  let ?s0 = "s ! 0"
  have "?s0 < 0x80 \<or> (0x80 \<le> ?s0 \<and> ?s0 < 0xC2) \<or> (0xC2 \<le> ?s0 \<and> ?s0 < 0xE0)
      \<or> (0xE0 \<le> ?s0 \<and> ?s0 < 0xF0) \<or> (0xF0 \<le> ?s0 \<and> ?s0 < 0xF5) \<or> 0xF5 \<le> ?s0"
    by linarith
  then consider "seqLen ?s0 = 0" | "seqLen ?s0 = 1" "?s0 < 0x80"
    | "seqLen ?s0 = 2" "0xC2 \<le> ?s0" "?s0 < 0xE0"
    | "seqLen ?s0 = 3" "0xE0 \<le> ?s0" "?s0 < 0xF0"
    | "seqLen ?s0 = 4" "0xF0 \<le> ?s0" "?s0 < 0xF5"
    by (elim disjE) (simp_all add: seqLen_def)
  then show ?thesis
  proof cases
    case 1
    then show ?thesis using e by (simp add: decodeRune_def Let_def)
  next
    case 2
    then show ?thesis using e by (simp add: decodeRune_def Let_def validRune_def)
  next
    case 3
    then show ?thesis using e valid2 [of ?s0 "s ! 1"]
      by (simp add: decodeRune_def Let_def acceptLo_def acceptHi_def not_less)
  next
    case 4
    then show ?thesis using e valid3 [of ?s0 "s ! 1" "s ! 2"]
      by (simp add: decodeRune_def Let_def not_less)
  next
    case 5
    then show ?thesis using e valid4 [of ?s0 "s ! 1" "s ! 2" "s ! 3"]
      by (simp add: decodeRune_def Let_def not_less)
  qed
qed

lemma runesOf_valid: "r \<in> set (runesOf s) \<Longrightarrow> validRune r"
proof (induction s arbitrary: r rule: runesOf.induct)
  case (1 s)
  show ?case
  proof (cases "s = []")
    case True
    with "1.prems" show ?thesis by (simp add: runesOf.simps)
  next
    case False
    with "1.prems" have "r = fst (decodeRune s) \<or> r \<in> set (runesOf (drop (snd (decodeRune s)) s))"
      by (subst (asm) runesOf.simps) simp
    then show ?thesis
      using decodeRune_valid [of s] "1.IH" [OF False] by blast
  qed
qed

lemma runesOf_encoded:
  "\<forall>r \<in> set rs. validRune r \<Longrightarrow> runesOf (concat (map encodeRune rs) @ bs) = rs @ runesOf bs"
proof (induction rs)
  case Nil
  show ?case by simp
next
  case (Cons r rs)
  have ne: "encodeRune r \<noteq> []" by (simp add: encodeRune_def)
  have d: "decodeRune (encodeRune r @ concat (map encodeRune rs) @ bs)
             = (r, length (encodeRune r))"
    using Cons.prems by (simp add: decode_encode)
  have "runesOf (concat (map encodeRune (r # rs)) @ bs)
          = r # runesOf (concat (map encodeRune rs) @ bs)"
    using ne by (subst runesOf.simps) (simp add: d)
  then show ?case using Cons by simp
qed

section \<open>Strings and runes\<close>

lemma encodeRune_bytes: "b \<in> set (encodeRune r) \<Longrightarrow> b < 256"
proof -
  assume b: "b \<in> set (encodeRune r)"
  have m: "\<And>x::nat. 0x80 + x mod 64 < 256"
    using cont_le by (simp add: le_imp_less_Suc)
  consider "r \<le> 0x7F" | "0x7F < r" "r \<le> 0x7FF"
    | "0x10FFFF < r \<or> (0xD800 \<le> r \<and> r \<le> 0xDFFF)"
    | "0x7FF < r" "r \<le> 0xFFFF" "\<not> (0x10FFFF < r \<or> (0xD800 \<le> r \<and> r \<le> 0xDFFF))"
    | "0xFFFF < r" "r \<le> 0x10FFFF"
    by linarith
  then show ?thesis
  proof cases
    case 1
    with b show ?thesis by (simp add: encodeRune_def)
  next
    case 2
    then have "r div 64 < 32" by (simp add: div_less_iff_less_mult)
    with 2 b m show ?thesis by (auto simp: encodeRune_def)
  next
    case 3
    then have "encodeRune r = [0xEF, 0xBF, 0xBD] \<or> r \<le> 0x7FF"
      by (auto simp: encodeRune_def)
    with 3 b show ?thesis by auto
  next
    case 4
    then have "r div 4096 < 16" by (simp add: div_less_iff_less_mult)
    with 4 b m show ?thesis by (auto simp: encodeRune_def)
  next
    case 5
    then have "r div 262144 < 5" by (simp add: div_less_iff_less_mult)
    with 5 b m show ?thesis by (auto simp: encodeRune_def)
  qed
qed

lemma of_char_char_of_bytes:
  "\<forall>b \<in> set bs. b < (256::nat) \<Longrightarrow> map of_char (map char_of bs) = bs"
  by (induction bs) (simp_all add: of_char_of)

lemma fromRunes_append: "fromRunes (a @ b) = fromRunes a @ fromRunes b"
  by (simp add: fromRunes_def)

lemma toRunes_valid: "r \<in> set (toRunes s) \<Longrightarrow> validRune r"
  unfolding toRunes_def by (rule runesOf_valid)

lemma toRunes_fromRunes:
  assumes "\<forall>r \<in> set rs. validRune r"
  shows "toRunes (fromRunes rs @ s) = rs @ toRunes s"
proof -
  have "\<forall>b \<in> set (concat (map encodeRune rs)). b < 256"
    by (auto dest: encodeRune_bytes)
  then have "map of_char (fromRunes rs) = concat (map encodeRune rs)"
    unfolding fromRunes_def by (rule of_char_char_of_bytes)
  then show ?thesis
    using runesOf_encoded [OF assms] by (simp add: toRunes_def)
qed

lemma fromRunes_keySep: "fromRunes [keySep] = ''_''"
proof -
  have "of_char (CHR ''_'') = (0x5F::nat)" by simp
  then have "char_of (0x5F::nat) = char_of (of_char (CHR ''_'') :: nat)" by (rule arg_cong [OF sym])
  then have "char_of (0x5F::nat) = CHR ''_''" by (simp only: char_of_char)
  then show ?thesis by (simp add: fromRunes_def encodeRune_def keySep_def)
qed

section \<open>The byte order of strings\<close>

lemma between_prefix:
  fixes p :: "'a::linorder list"
  shows "p @ a \<le> k \<Longrightarrow> k \<le> p @ b \<Longrightarrow> \<exists>k'. k = p @ k'"
proof (induction p arbitrary: k)
  case Nil
  show ?case by simp
next
  case (Cons c p)
  show ?case
  proof (cases k)
    case Nil
    with Cons.prems show ?thesis by simp
  next
    case (Cons d k2)
    with Cons.prems have "c = d" "p @ a \<le> k2" "k2 \<le> p @ b" by auto
    with Cons.IH [of k2] Cons show ?thesis by auto
  qed
qed

lemma append_le_cancel:
  fixes p :: "'a::linorder list"
  shows "p @ a \<le> p @ b \<longleftrightarrow> a \<le> b"
  by (induction p) auto

section \<open>The loop of the common prefix\<close>

lemma scan_bounds: "i \<le> c \<Longrightarrow> i \<le> scan r1 r2 c i \<and> scan r1 r2 c i \<le> c"
proof (induction r1 r2 c i rule: scan.induct)
  case (1 r1 r2 c i)
  show ?case
  proof (cases "i < c \<and> r1 ! i = r2 ! i")
    case True
    then have "scan r1 r2 c i = scan r1 r2 c (i + 1)" by (subst scan.simps) auto
    with "1.IH" [OF True] True show ?thesis by simp
  next
    case False
    then have "scan r1 r2 c i = i" by (subst scan.simps) auto
    with "1.prems" show ?thesis by simp
  qed
qed

lemma scan_agree: "i \<le> j \<Longrightarrow> j < scan r1 r2 c i \<Longrightarrow> r1 ! j = r2 ! j"
proof (induction r1 r2 c i rule: scan.induct)
  case (1 r1 r2 c i)
  show ?case
  proof (cases "i < c \<and> r1 ! i = r2 ! i")
    case True
    then have s: "scan r1 r2 c i = scan r1 r2 c (i + 1)" by (subst scan.simps) auto
    show ?thesis
    proof (cases "i = j")
      case True
      with \<open>i < c \<and> r1 ! i = r2 ! i\<close> show ?thesis by simp
    next
      case False
      with "1.prems" s "1.IH" [OF True] show ?thesis by simp
    qed
  next
    case False
    then have "scan r1 r2 c i = i" by (subst scan.simps) auto
    with "1.prems" show ?thesis by simp
  qed
qed

lemma scan_stop:
  "i \<le> c \<Longrightarrow> scan r1 r2 c i = c \<or> r1 ! (scan r1 r2 c i) \<noteq> r2 ! (scan r1 r2 c i)"
proof (induction r1 r2 c i rule: scan.induct)
  case (1 r1 r2 c i)
  show ?case
  proof (cases "i < c \<and> r1 ! i = r2 ! i")
    case True
    then have "scan r1 r2 c i = scan r1 r2 c (i + 1)" by (subst scan.simps) auto
    with "1.IH" [OF True] True show ?thesis by simp
  next
    case False
    then have "scan r1 r2 c i = i" by (subst scan.simps) auto
    with False "1.prems" show ?thesis by auto
  qed
qed

lemma scan_start: "c = 0 \<or> r1 ! 0 \<noteq> r2 ! 0 \<Longrightarrow> scan r1 r2 c 0 = 0"
  by (subst scan.simps) auto

section \<open>The first and the last key\<close>

lemma sort_ends:
  fixes ks :: "'a::linorder list"
  assumes "ks \<noteq> []"
  shows "sort ks ! 0 \<in> set ks"
    and "sort ks ! (length ks - 1) \<in> set ks"
    and "k \<in> set ks \<Longrightarrow> sort ks ! 0 \<le> k"
    and "k \<in> set ks \<Longrightarrow> k \<le> sort ks ! (length ks - 1)"
proof -
  have len: "length (sort ks) = length ks" "0 < length ks"
    using assms by simp_all
  have "sort ks ! 0 \<in> set (sort ks)" "sort ks ! (length ks - 1) \<in> set (sort ks)"
    using len by (simp_all del: set_sort)
  then show "sort ks ! 0 \<in> set ks" "sort ks ! (length ks - 1) \<in> set ks"
    by simp_all
  assume "k \<in> set ks"
  then have "k \<in> set (sort ks)" by simp
  then obtain j where j: "j < length ks" "sort ks ! j = k"
    using len by (auto simp: in_set_conv_nth simp del: set_sort)
  have s: "sorted (sort ks)" by simp
  from sorted_nth_mono [OF s, of 0 j] j len show "sort ks ! 0 \<le> k" by simp
  from sorted_nth_mono [OF s, of j "length ks - 1"] j len
  show "k \<le> sort ks ! (length ks - 1)" by simp
qed

lemma sort_least:
  fixes ks :: "'a::linorder list"
  assumes "a \<in> set ks" "\<forall>k \<in> set ks. a \<le> k"
  shows "sort ks ! 0 = a"
proof -
  have ne: "ks \<noteq> []" using assms(1) by auto
  from sort_ends(1) [OF ne] assms(2) have "a \<le> sort ks ! 0" by simp
  moreover from sort_ends(3) [OF ne assms(1)] have "sort ks ! 0 \<le> a" .
  ultimately show ?thesis by simp
qed

lemma sort_greatest:
  fixes ks :: "'a::linorder list"
  assumes "a \<in> set ks" "\<forall>k \<in> set ks. k \<le> a"
  shows "sort ks ! (length ks - 1) = a"
proof -
  have ne: "ks \<noteq> []" using assms(1) by auto
  from sort_ends(2) [OF ne] assms(2) have "sort ks ! (length ks - 1) \<le> a" by simp
  moreover from sort_ends(4) [OF ne assms(1)] have "a \<le> sort ks ! (length ks - 1)" .
  ultimately show ?thesis by simp
qed

section \<open>The common prefix of keys that are valid UTF-8\<close>

lemma commonPrefix_eq:
  "commonPrefix m =
     (if length m \<le> 1 \<or> cutAt m = 0 \<or> toRunes (firstKey m) ! (cutAt m - 1) \<noteq> keySep then []
      else fromRunes (take (cutAt m) (toRunes (firstKey m))))"
  by (simp add: commonPrefix_def cutAt_def firstKey_def lastKey_def Let_def)

lemma cutAt_le: "cutAt m \<le> length (toRunes (firstKey m))" "cutAt m \<le> length (toRunes (lastKey m))"
  using scan_bounds [of 0 "min (length (toRunes (firstKey m))) (length (toRunes (lastKey m)))"
      "toRunes (firstKey m)" "toRunes (lastKey m)"]
  by (simp_all add: cutAt_def)

lemma cutAt_take: "take (cutAt m) (toRunes (firstKey m)) = take (cutAt m) (toRunes (lastKey m))"
proof (rule nth_equalityI)
  show "length (take (cutAt m) (toRunes (firstKey m))) = length (take (cutAt m) (toRunes (lastKey m)))"
    using cutAt_le [of m] by simp
next
  fix j
  assume "j < length (take (cutAt m) (toRunes (firstKey m)))"
  then have j: "j < cutAt m" by simp
  then have "toRunes (firstKey m) ! j = toRunes (lastKey m) ! j"
    unfolding cutAt_def by (intro scan_agree [of 0 j]) simp_all
  with j show "take (cutAt m) (toRunes (firstKey m)) ! j = take (cutAt m) (toRunes (lastKey m)) ! j"
    by simp
qed

lemma cutAt_stop:
  "cutAt m = length (toRunes (firstKey m)) \<or> cutAt m = length (toRunes (lastKey m))
   \<or> toRunes (firstKey m) ! cutAt m \<noteq> toRunes (lastKey m) ! cutAt m"
  using scan_stop [of 0 "min (length (toRunes (firstKey m))) (length (toRunes (lastKey m)))"
      "toRunes (firstKey m)" "toRunes (lastKey m)"]
  by (auto simp: cutAt_def min_def split: if_splits)

lemma valid_split:
  assumes "validUTF8 s" "i \<le> length (toRunes s)"
  shows "s = fromRunes (take i (toRunes s)) @ fromRunes (drop i (toRunes s))"
    and "toRunes (fromRunes (drop i (toRunes s))) = drop i (toRunes s)"
proof -
  have "s = fromRunes (take i (toRunes s) @ drop i (toRunes s))"
    using assms(1) by (simp add: validUTF8_def)
  then show s: "s = fromRunes (take i (toRunes s)) @ fromRunes (drop i (toRunes s))"
    by (simp only: fromRunes_append)
  have v: "\<forall>r \<in> set (take i (toRunes s)). validRune r"
    by (auto dest: in_set_takeD toRunes_valid)
  have "toRunes s = take i (toRunes s) @ toRunes (fromRunes (drop i (toRunes s)))"
    using toRunes_fromRunes [OF v, of "fromRunes (drop i (toRunes s))"] s by simp
  then have "take i (toRunes s) @ drop i (toRunes s)
      = take i (toRunes s) @ toRunes (fromRunes (drop i (toRunes s)))"
    by simp
  then show "toRunes (fromRunes (drop i (toRunes s))) = drop i (toRunes s)"
    by (simp only: same_append_eq)
qed

lemma commonPrefix_last:
  assumes "commonPrefix m \<noteq> []"
  shows "last (commonPrefix m) = CHR ''_''"
proof -
  let ?r = "toRunes (firstKey m)"
  from assms have c: "0 < cutAt m" "?r ! (cutAt m - 1) = keySep"
    and p: "commonPrefix m = fromRunes (take (cutAt m) ?r)"
    by (simp_all add: commonPrefix_eq split: if_splits)
  have "cutAt m - 1 < length ?r" using c(1) cutAt_le(1) [of m] by simp
  then have "take (Suc (cutAt m - 1)) ?r = take (cutAt m - 1) ?r @ [?r ! (cutAt m - 1)]"
    by (rule take_Suc_conv_app_nth)
  with c have "take (cutAt m) ?r = take (cutAt m - 1) ?r @ [keySep]" by simp
  then have "commonPrefix m = fromRunes (take (cutAt m - 1) ?r) @ ''_''"
    by (simp add: p fromRunes_append fromRunes_keySep)
  then show ?thesis by simp
qed

lemma commonPrefix_ends:
  assumes "commonPrefix m \<noteq> []" "validUTF8 (firstKey m)" "validUTF8 (lastKey m)"
  shows "firstKey m = commonPrefix m @ fromRunes (drop (cutAt m) (toRunes (firstKey m)))"
    and "lastKey m = commonPrefix m @ fromRunes (drop (cutAt m) (toRunes (lastKey m)))"
proof -
  from assms(1) have p: "commonPrefix m = fromRunes (take (cutAt m) (toRunes (firstKey m)))"
    by (simp add: commonPrefix_eq split: if_splits)
  show "firstKey m = commonPrefix m @ fromRunes (drop (cutAt m) (toRunes (firstKey m)))"
    using valid_split(1) [OF assms(2) cutAt_le(1)] by (simp add: p)
  show "lastKey m = commonPrefix m @ fromRunes (drop (cutAt m) (toRunes (lastKey m)))"
    using valid_split(1) [OF assms(3) cutAt_le(2)] by (simp add: p cutAt_take)
qed

lemma keys_ends:
  assumes "m \<noteq> []"
  shows "firstKey m \<in> set (keys m)" "lastKey m \<in> set (keys m)"
    and "k \<in> set (keys m) \<Longrightarrow> firstKey m \<le> k \<and> k \<le> lastKey m"
proof -
  have ne: "keys m \<noteq> []" using assms by (simp add: keys_def)
  have len: "length m = length (keys m)" by (simp add: keys_def)
  show "firstKey m \<in> set (keys m)" "lastKey m \<in> set (keys m)"
    using sort_ends(1,2) [OF ne] by (simp_all add: firstKey_def lastKey_def len)
  show "k \<in> set (keys m) \<Longrightarrow> firstKey m \<le> k \<and> k \<le> lastKey m"
    using sort_ends(3,4) [OF ne] by (simp add: firstKey_def lastKey_def len)
qed

lemma commonPrefix_prefix:
  assumes "commonPrefix m \<noteq> []" "\<forall>k \<in> set (keys m). validUTF8 k" "k \<in> set (keys m)"
  shows "\<exists>k'. k = commonPrefix m @ k'"
proof -
  have ne: "m \<noteq> []" using assms(1) by (auto simp: commonPrefix_def)
  have v: "validUTF8 (firstKey m)" "validUTF8 (lastKey m)"
    using keys_ends(1,2) [OF ne] assms(2) by simp_all
  from keys_ends(3) [OF ne assms(3)] commonPrefix_ends [OF assms(1) v]
  have "commonPrefix m @ fromRunes (drop (cutAt m) (toRunes (firstKey m))) \<le> k"
    "k \<le> commonPrefix m @ fromRunes (drop (cutAt m) (toRunes (lastKey m)))"
    by simp_all
  then show ?thesis by (rule between_prefix)
qed

section \<open>Stripping the prefix\<close>

lemma store_fresh: "k \<notin> fst ` set out \<Longrightarrow> store out k v = out @ [(k, v)]"
  unfolding store_def by (induction out) auto

lemma fold_store_fresh:
  assumes "distinct (map f (map fst m))" "f ` fst ` set m \<inter> fst ` set out = {}"
  shows "fold (\<lambda>(k, v) out. store out (f k) v) m out = out @ map (\<lambda>(k, v). (f k, v)) m"
  using assms
proof (induction m arbitrary: out)
  case Nil
  show ?case by simp
next
  case (Cons e m)
  obtain k v where e: "e = (k, v)" by (cases e)
  have fresh: "f k \<notin> fst ` set out" using Cons.prems(2) e by auto
  have "f ` fst ` set m \<inter> fst ` set (out @ [(f k, v)]) = {}"
    using Cons.prems e by auto
  with Cons.IH [of "out @ [(f k, v)]"] Cons.prems(1) e
  have "fold (\<lambda>(k, v) out. store out (f k) v) m (out @ [(f k, v)])
          = (out @ [(f k, v)]) @ map (\<lambda>(k, v). (f k, v)) m"
    by simp
  then show ?case by (simp add: e store_fresh [OF fresh])
qed

lemma TrimPrefix_append: "TrimPrefix (p @ k) p = k"
  by (simp add: TrimPrefix_def)

lemma TrimPrefix_drop: "\<exists>k'. k = p @ k' \<Longrightarrow> TrimPrefix k p = drop (length p) k"
  by (auto simp: TrimPrefix_def)

lemma drop_prefix_inj:
  assumes "\<forall>k \<in> set ks. \<exists>k'. k = p @ k'" "distinct ks"
  shows "distinct (map (drop (length p)) ks)"
proof -
  have "inj_on (drop (length p)) (set ks)"
  proof (rule inj_onI)
    fix a b
    assume a: "a \<in> set ks" and b: "b \<in> set ks"
      and d: "drop (length p) a = drop (length p) b"
    from assms(1) a obtain a' where a': "a = p @ a'" by blast
    from assms(1) b obtain b' where b': "b = p @ b'" by blast
    from d show "a = b" by (simp add: a' b')
  qed
  with assms(2) show ?thesis by (simp add: distinct_map)
qed

lemma simplify_strip:
  assumes "isMap m" "\<forall>k \<in> set (keys m). validUTF8 k"
  shows "simplify m = map (\<lambda>(k, v). (drop (length (commonPrefix m)) k, v)) m"
proof (cases "commonPrefix m = []")
  case True
  then show ?thesis by (simp add: simplify_def case_prod_beta)
next
  case False
  let ?p = "commonPrefix m"
  have pre: "\<forall>k \<in> set (keys m). \<exists>k'. k = ?p @ k'"
    using commonPrefix_prefix [OF False assms(2)] by blast
  have eq: "map (\<lambda>(k, v). (TrimPrefix k ?p, v)) m = map (\<lambda>(k, v). (drop (length ?p) k, v)) m"
    using pre by (auto simp: keys_def TrimPrefix_drop)
  have "map (\<lambda>k. TrimPrefix k ?p) (map fst m) = map (drop (length ?p)) (keys m)"
    using pre by (auto simp: keys_def TrimPrefix_drop)
  then have "distinct (map (\<lambda>k. TrimPrefix k ?p) (map fst m))"
    using drop_prefix_inj [OF pre] assms(1) by (simp add: isMap_def)
  then have "fold (\<lambda>(k, v) out. store out (TrimPrefix k ?p) v) m []
               = [] @ map (\<lambda>(k, v). (TrimPrefix k ?p, v)) m"
    by (intro fold_store_fresh) simp_all
  with False eq show ?thesis by (simp add: simplify_def)
qed

lemma keys_simplify:
  assumes "isMap m" "\<forall>k \<in> set (keys m). validUTF8 k"
  shows "keys (simplify m) = map (drop (length (commonPrefix m))) (keys m)"
  by (simp add: simplify_strip [OF assms] keys_def case_prod_beta comp_def)

lemma values_simplify:
  assumes "isMap m" "\<forall>k \<in> set (keys m). validUTF8 k"
  shows "map snd (simplify m) = map snd m"
  by (simp add: simplify_strip [OF assms] case_prod_beta comp_def)

lemma isMap_simplify:
  assumes "isMap m" "\<forall>k \<in> set (keys m). validUTF8 k"
  shows "isMap (simplify m)"
proof (cases "commonPrefix m = []")
  case True
  with assms(1) show ?thesis by (simp add: simplify_def)
next
  case False
  have "\<forall>k \<in> set (keys m). \<exists>k'. k = commonPrefix m @ k'"
    using commonPrefix_prefix [OF False assms(2)] by blast
  from drop_prefix_inj [OF this] assms(1) show ?thesis
    by (simp add: isMap_def keys_simplify [OF assms])
qed

section \<open>A second pass finds nothing to strip\<close>

lemma commonPrefix_simplify:
  assumes "isMap m" "\<forall>k \<in> set (keys m). validUTF8 k" "commonPrefix m \<noteq> []"
  shows "commonPrefix (simplify m) = []"
proof -
  let ?p = "commonPrefix m" and ?m' = "simplify m"
  let ?r1 = "toRunes (firstKey m)" and ?r2 = "toRunes (lastKey m)"
  have ne: "m \<noteq> []" using assms(3) by (auto simp: commonPrefix_def)
  have v: "validUTF8 (firstKey m)" "validUTF8 (lastKey m)"
    using keys_ends(1,2) [OF ne] assms(2) by simp_all
  note ends = commonPrefix_ends [OF assms(3) v]
  have pre: "\<forall>k \<in> set (keys m). \<exists>k'. k = ?p @ k'"
    using commonPrefix_prefix [OF assms(3,2)] by blast
  have ks: "keys ?m' = map (drop (length ?p)) (keys m)"
    by (rule keys_simplify [OF assms(1,2)])
  have len: "length ?m' = length m" "length (keys ?m') = length m"
    by (simp_all add: simplify_strip [OF assms(1,2)] keys_def)
  have f_in: "drop (length ?p) (firstKey m) \<in> set (keys ?m')"
    and l_in: "drop (length ?p) (lastKey m) \<in> set (keys ?m')"
    using keys_ends(1,2) [OF ne] by (simp_all add: ks)
  have f_le: "\<forall>k' \<in> set (keys ?m'). drop (length ?p) (firstKey m) \<le> k'"
  proof
    fix k'
    assume "k' \<in> set (keys ?m')"
    then obtain k where k: "k \<in> set (keys m)" "k' = drop (length ?p) k"
      by (auto simp: ks)
    from pre k(1) obtain k2 where k2: "k = ?p @ k2" by blast
    from keys_ends(3) [OF ne k(1)] have "firstKey m \<le> k" by simp
    then have "?p @ fromRunes (drop (cutAt m) ?r1) \<le> ?p @ k2"
      using ends(1) k2 by simp
    then have "fromRunes (drop (cutAt m) ?r1) \<le> k2" by (simp only: append_le_cancel)
    moreover have "drop (length ?p) (firstKey m) = fromRunes (drop (cutAt m) ?r1)"
      by (subst ends(1)) simp
    ultimately show "drop (length ?p) (firstKey m) \<le> k'" by (simp add: k(2) k2)
  qed
  have l_ge: "\<forall>k' \<in> set (keys ?m'). k' \<le> drop (length ?p) (lastKey m)"
  proof
    fix k'
    assume "k' \<in> set (keys ?m')"
    then obtain k where k: "k \<in> set (keys m)" "k' = drop (length ?p) k"
      by (auto simp: ks)
    from pre k(1) obtain k2 where k2: "k = ?p @ k2" by blast
    from keys_ends(3) [OF ne k(1)] have "k \<le> lastKey m" by simp
    then have "?p @ k2 \<le> ?p @ fromRunes (drop (cutAt m) ?r2)"
      using ends(2) k2 by simp
    then have "k2 \<le> fromRunes (drop (cutAt m) ?r2)" by (simp only: append_le_cancel)
    moreover have "drop (length ?p) (lastKey m) = fromRunes (drop (cutAt m) ?r2)"
      by (subst ends(2)) simp
    ultimately show "k' \<le> drop (length ?p) (lastKey m)" by (simp add: k(2) k2)
  qed
  have first: "firstKey ?m' = fromRunes (drop (cutAt m) ?r1)"
  proof -
    have "firstKey ?m' = drop (length ?p) (firstKey m)"
      unfolding firstKey_def [of ?m'] by (rule sort_least [OF f_in f_le])
    also have "\<dots> = fromRunes (drop (cutAt m) ?r1)" by (subst ends(1)) simp
    finally show ?thesis .
  qed
  have last: "lastKey ?m' = fromRunes (drop (cutAt m) ?r2)"
  proof -
    have "sort (keys ?m') ! (length (keys ?m') - 1) = drop (length ?p) (lastKey m)"
      by (rule sort_greatest [OF l_in l_ge])
    then have "lastKey ?m' = drop (length ?p) (lastKey m)"
      by (simp add: lastKey_def [of ?m'] len)
    also have "\<dots> = fromRunes (drop (cutAt m) ?r2)" by (subst ends(2)) simp
    finally show ?thesis .
  qed
  have r1: "toRunes (firstKey ?m') = drop (cutAt m) ?r1"
    by (simp add: first valid_split(2) [OF v(1) cutAt_le(1)])
  have r2: "toRunes (lastKey ?m') = drop (cutAt m) ?r2"
    by (simp add: last valid_split(2) [OF v(2) cutAt_le(2)])
  have "cutAt ?m' = 0"
  proof -
    have "min (length (drop (cutAt m) ?r1)) (length (drop (cutAt m) ?r2)) = 0
          \<or> drop (cutAt m) ?r1 ! 0 \<noteq> drop (cutAt m) ?r2 ! 0"
      using cutAt_stop [of m] cutAt_le [of m] by auto
    then show ?thesis
      unfolding cutAt_def [of ?m'] r1 r2 by (rule scan_start)
  qed
  then show ?thesis by (simp add: commonPrefix_eq [of ?m'])
qed
section \<open>The boundary rule of prefix compression\<close>

lemma keys_fold_store:
  "fst ` set (fold (\<lambda>(k, v) out. store out (f k) v) m out) = fst ` set out \<union> f ` fst ` set m"
proof (induction m arbitrary: out)
  case Nil
  show ?case by simp
next
  case (Cons e m)
  obtain k v where e: "e = (k, v)" by (cases e)
  have "set (map fst (AList.update (f k) v out)) = insert (f k) (set (map fst out))"
    by (auto simp: update_keys)
  then have "fst ` set (store out (f k) v) = insert (f k) (fst ` set out)"
    by (simp add: store_def)
  then show ?case
    using Cons.IH [of "store out (f k) v"] by (auto simp: e)
qed

lemma keys_of_simplify:
  "set (keys (simplify m)) = (\<lambda>k. TrimPrefix k (commonPrefix m)) ` set (keys m)"
proof (cases "commonPrefix m = []")
  case True
  then show ?thesis by (simp add: simplify_def TrimPrefix_def)
next
  case False
  then show ?thesis
    using keys_fold_store [of "\<lambda>k. TrimPrefix k (commonPrefix m)" m "[]"]
    by (simp add: simplify_def keys_def)
qed

lemma simplify_changed:
  assumes "simplify m \<noteq> m"
  shows "commonPrefix m \<noteq> []"
    and "commonPrefix m = fromRunes (take (cutAt m) (toRunes (firstKey m)))"
    and "0 < cutAt m"
    and "toRunes (firstKey m) ! (cutAt m - 1) = keySep"
proof -
  show ne: "commonPrefix m \<noteq> []"
    using assms by (auto simp: simplify_def)
  show "commonPrefix m = fromRunes (take (cutAt m) (toRunes (firstKey m)))"
    using ne by (simp add: commonPrefix_eq split: if_splits)
  show "0 < cutAt m"
    using ne by (simp add: commonPrefix_eq split: if_splits)
  show "toRunes (firstKey m) ! (cutAt m - 1) = keySep"
    using ne by (simp add: commonPrefix_eq split: if_splits)
qed

lemma simplify_kept:
  assumes "cutAt m = 0 \<or> toRunes (firstKey m) ! (cutAt m - 1) \<noteq> keySep"
  shows "simplify m = m"
proof -
  have "commonPrefix m = []"
    using assms by (auto simp: commonPrefix_eq)
  then show ?thesis by (simp add: simplify_def)
qed

lemma geek1_cut:
  "cutAt [(''geek1'', VString ''a''), (''geek2'', VString ''b'')] = 4
   \<and> toRunes (firstKey [(''geek1'', VString ''a''), (''geek2'', VString ''b'')]) ! 3 = 107"
  by code_simp

text \<open>
  Claim C5. \<^verbatim>\<open>simplify\<close> strips a shared prefix only when the rune just before the
  cut is the separator. For every map: when the cut is at zero or the rune before it is
  not \<^verbatim>\<open>_\<close>, the map is returned as it is, and so is a map of no or one entry; when
  the map is changed, the prefix is not empty, it is the runes of the least key up to
  the cut, the rune before the cut is \<^verbatim>\<open>_\<close> and the prefix ends with \<^verbatim>\<open>_\<close>; and the
  keys returned are the keys given, trimmed of that prefix. On the documented
  examples: \<^verbatim>\<open>geek_\<close> is stripped from \<^verbatim>\<open>geek_name\<close> and \<^verbatim>\<open>geek_age\<close>, whatever the
  two values and in either order of the map, and \<^verbatim>\<open>geek1\<close> and \<^verbatim>\<open>geek2\<close> are left
  as they are.
\<close>

theorem C5_simplify_boundary:
  "simplify [(''geek_name'', v1), (''geek_age'', v2)] = [(''name'', v1), (''age'', v2)]
   \<and> simplify [(''geek_age'', v2), (''geek_name'', v1)] = [(''age'', v2), (''name'', v1)]
   \<and> simplify [(''geek1'', v1), (''geek2'', v2)] = [(''geek1'', v1), (''geek2'', v2)]
   \<and> simplify [(''geek2'', v2), (''geek1'', v1)] = [(''geek2'', v2), (''geek1'', v1)]
   \<and> (length m \<le> 1 \<longrightarrow> simplify m = m)
   \<and> (cutAt m = 0 \<or> toRunes (firstKey m) ! (cutAt m - 1) \<noteq> keySep \<longrightarrow> simplify m = m)
   \<and> (simplify m \<noteq> m \<longrightarrow>
        commonPrefix m \<noteq> [] \<and> last (commonPrefix m) = CHR ''_''
        \<and> commonPrefix m = fromRunes (take (cutAt m) (toRunes (firstKey m)))
        \<and> 0 < cutAt m \<and> toRunes (firstKey m) ! (cutAt m - 1) = keySep)
   \<and> set (keys (simplify m)) = (\<lambda>k. TrimPrefix k (commonPrefix m)) ` set (keys m)"
proof -
  have "length m \<le> 1 \<longrightarrow> simplify m = m"
    by (simp add: simplify_short)
  moreover have "cutAt m = 0 \<or> toRunes (firstKey m) ! (cutAt m - 1) \<noteq> keySep \<longrightarrow> simplify m = m"
    using simplify_kept [of m] by blast
  moreover have "simplify m \<noteq> m \<longrightarrow>
        commonPrefix m \<noteq> [] \<and> last (commonPrefix m) = CHR ''_''
        \<and> commonPrefix m = fromRunes (take (cutAt m) (toRunes (firstKey m)))
        \<and> 0 < cutAt m \<and> toRunes (firstKey m) ! (cutAt m - 1) = keySep"
    using simplify_changed [of m] commonPrefix_last [of m] by blast
  ultimately show ?thesis
    by (simp only: simplify_geek_name simplify_geek_age simplify_geek1 simplify_geek2
        keys_of_simplify simp_thms)
qed

theorem C5_simplify_boundary_witness:
  "length [(''key'', VString ''value'')] \<le> 1
   \<and> simplify [(''key'', VString ''value'')] = [(''key'', VString ''value'')]
   \<and> toRunes (firstKey [(''geek1'', VString ''a''), (''geek2'', VString ''b'')])
       ! (cutAt [(''geek1'', VString ''a''), (''geek2'', VString ''b'')] - 1) \<noteq> keySep
   \<and> simplify [(''geek1'', VString ''a''), (''geek2'', VString ''b'')]
       = [(''geek1'', VString ''a''), (''geek2'', VString ''b'')]
   \<and> simplify [(''geek_name'', VString ''a''), (''geek_age'', VString ''b'')]
       \<noteq> [(''geek_name'', VString ''a''), (''geek_age'', VString ''b'')]
   \<and> commonPrefix [(''geek_name'', VString ''a''), (''geek_age'', VString ''b'')] \<noteq> []
   \<and> last (commonPrefix [(''geek_name'', VString ''a''), (''geek_age'', VString ''b'')]) = CHR ''_''
   \<and> toRunes (firstKey [(''geek_name'', VString ''a''), (''geek_age'', VString ''b'')])
       ! (cutAt [(''geek_name'', VString ''a''), (''geek_age'', VString ''b'')] - 1) = keySep"
  using C5_simplify_boundary [where m = "[(''key'', VString ''value'')]"]
    C5_simplify_boundary [where m = "[(''geek1'', VString ''a''), (''geek2'', VString ''b'')]"
      and ?v1.0 = "VString ''a''" and ?v2.0 = "VString ''b''"]
    C5_simplify_boundary [where m = "[(''geek_name'', VString ''a''), (''geek_age'', VString ''b'')]"
      and ?v1.0 = "VString ''a''" and ?v2.0 = "VString ''b''"]
    geek1_cut
  by (auto simp: keySep_def)

section \<open>Evaluating the conversions on concrete strings\<close>

lemma runesOf_Nil: "runesOf [] = []"
  by (simp add: runesOf.simps)

lemma runesOf_Cons:
  "runesOf (b # bs)
     = fst (decodeRune (b # bs)) # runesOf (drop (snd (decodeRune (b # bs))) (b # bs))"
  by (subst runesOf.simps) simp

lemmas rune_simps = runesOf_Nil runesOf_Cons decodeRune_def seqLen_def acceptLo_def
  acceptHi_def RuneError_def encodeRune_def toRunes_def fromRunes_def Let_def char_of_def
  bit_Suc_0_iff

section \<open>Idempotence of the prefix compression\<close>

text \<open>
  Claim C4 as stated fails on the code. The two keys below are distinct, and the second
  is not valid UTF-8: its byte \<^verbatim>\<open>0xFF\<close> decodes to the rune \<^verbatim>\<open>U+FFFD\<close>, which the
  first key holds for real. The runes of the two keys agree up to \<^verbatim>\<open>a_\<close>,
  \<^verbatim>\<open>U+FFFD\<close>, \<^verbatim>\<open>_\<close>; the prefix encoded from them is a prefix of the first key only,
  so only that key is trimmed, to \<^verbatim>\<open>a_x\<close>. A second pass then finds the prefix
  \<^verbatim>\<open>a_\<close> and trims both keys.
\<close>

theorem C4_invalid_key_counterexample:
  "isMap [([CHR ''a'', CHR ''_'', CHR 0xEF, CHR 0xBF, CHR 0xBD, CHR ''_'', CHR ''a'', CHR ''_'',
             CHR ''x''], VNull),
          ([CHR ''a'', CHR ''_'', CHR 0xFF, CHR ''_'', CHR ''b''], VBool True)]
   \<and> simplify
        [([CHR ''a'', CHR ''_'', CHR 0xEF, CHR 0xBF, CHR 0xBD, CHR ''_'', CHR ''a'', CHR ''_'',
           CHR ''x''], VNull),
         ([CHR ''a'', CHR ''_'', CHR 0xFF, CHR ''_'', CHR ''b''], VBool True)]
       = [(''a_x'', VNull), ([CHR ''a'', CHR ''_'', CHR 0xFF, CHR ''_'', CHR ''b''], VBool True)]
   \<and> simplify
        (simplify
          [([CHR ''a'', CHR ''_'', CHR 0xEF, CHR 0xBF, CHR 0xBD, CHR ''_'', CHR ''a'', CHR ''_'',
             CHR ''x''], VNull),
           ([CHR ''a'', CHR ''_'', CHR 0xFF, CHR ''_'', CHR ''b''], VBool True)])
       = [(''x'', VNull), ([CHR 0xFF, CHR ''_'', CHR ''b''], VBool True)]"
proof -
  let ?k1 = "[CHR ''a'', CHR ''_'', CHR 0xEF, CHR 0xBF, CHR 0xBD, CHR ''_'', CHR ''a'', CHR ''_'',
             CHR ''x'']"
  let ?k2 = "[CHR ''a'', CHR ''_'', CHR 0xFF, CHR ''_'', CHR ''b'']"
  let ?m = "[(?k1, VNull), (?k2, VBool True)]"
  let ?m' = "[(''a_x'', VNull), (?k2, VBool True)]"
  have wf: "isMap ?m" by (simp add: isMap_def keys_def)
  have r1: "toRunes ?k1 = [0x61, 0x5F, 0xFFFD, 0x5F, 0x61, 0x5F, 0x78]"
    by (simp add: rune_simps)
  have r2: "toRunes ?k2 = [0x61, 0x5F, 0xFFFD, 0x5F, 0x62]"
    by (simp add: rune_simps)
  have r3: "toRunes ''a_x'' = [0x61, 0x5F, 0x78]"
    by (simp add: rune_simps)
  have f: "firstKey ?m = ?k1" "lastKey ?m = ?k2"
    by (simp_all add: firstKey_def lastKey_def keys_def)
  have c: "cutAt ?m = 4"
    by (simp add: cutAt_def f r1 r2 scan.simps)
  have p: "commonPrefix ?m = [CHR ''a'', CHR ''_'', CHR 0xEF, CHR 0xBF, CHR 0xBD, CHR ''_'']"
    by (simp add: commonPrefix_eq c f r1 keySep_def rune_simps)
  have s: "simplify ?m = ?m'"
    by (simp add: simplify_def p TrimPrefix_def store_def)
  have f': "firstKey ?m' = ''a_x''" "lastKey ?m' = ?k2"
    by (simp_all add: firstKey_def lastKey_def keys_def)
  have c': "cutAt ?m' = 2"
    by (simp add: cutAt_def f' r2 r3 scan.simps)
  have p': "commonPrefix ?m' = ''a_''"
    by (simp add: commonPrefix_eq c' f' r3 keySep_def rune_simps)
  have s': "simplify ?m' = [(''x'', VNull), ([CHR 0xFF, CHR ''_'', CHR ''b''], VBool True)]"
    by (simp add: simplify_def p' TrimPrefix_def store_def)
  from wf s s' show ?thesis by simp
qed

text \<open>
  Claim C4, amended. For every map whose keys are valid UTF-8, \<^verbatim>\<open>simplify\<close> applied
  to its own output returns that output.
\<close>

theorem C4_simplify_idempotent:
  assumes "isMap m" and "\<forall>k \<in> set (keys m). validUTF8 k"
  shows "simplify (simplify m) = simplify m"
proof (cases "commonPrefix m = []")
  case True
  then show ?thesis by (simp add: simplify_def)
next
  case False
  from commonPrefix_simplify [OF assms False] show ?thesis
    by (simp add: simplify_def [of "simplify m"])
qed

theorem C4_simplify_idempotent_witness:
  "isMap [(''geek_name'', VString ''value''), (''geek_age'', VFloat64 42)]
   \<and> validUTF8 ''geek_name'' \<and> validUTF8 ''geek_age''
   \<and> simplify [(''geek_name'', VString ''value''), (''geek_age'', VFloat64 42)]
       = [(''name'', VString ''value''), (''age'', VFloat64 42)]
   \<and> simplify (simplify [(''geek_name'', VString ''value''), (''geek_age'', VFloat64 42)])
       = [(''name'', VString ''value''), (''age'', VFloat64 42)]"
proof -
  let ?m = "[(''geek_name'', VString ''value''), (''geek_age'', VFloat64 42)]"
  have a: "isMap ?m" by (simp add: isMap_def keys_def)
  have v: "validUTF8 ''geek_name''" "validUTF8 ''geek_age''"
    by (simp_all add: validUTF8_def rune_simps)
  then have b: "\<forall>k \<in> set (keys ?m). validUTF8 k" by (simp add: keys_def)
  have c: "simplify ?m = [(''name'', VString ''value''), (''age'', VFloat64 42)]"
    by (rule simplify_geek_name)
  from C4_simplify_idempotent [OF a b] a v c show ?thesis by simp
qed

section \<open>The invariant of the prefix compression\<close>

text \<open>
  Claim C10 as stated fails on the code. Of the two distinct keys below the second is not
  valid UTF-8. \<^verbatim>\<open>commonPrefix\<close> returns the encoding of \<^verbatim>\<open>U+FFFD\<close> and \<^verbatim>\<open>_\<close>,
  four bytes that are no prefix of the second key; trimming then maps the first key onto
  the second, and the output has one entry where the input had two.
\<close>

theorem C10_invalid_key_counterexample:
  "isMap [([CHR 0xEF, CHR 0xBF, CHR 0xBD, CHR ''_'', CHR 0xFF, CHR ''_''], VNull),
          ([CHR 0xFF, CHR ''_''], VBool True)]
   \<and> commonPrefix [([CHR 0xEF, CHR 0xBF, CHR 0xBD, CHR ''_'', CHR 0xFF, CHR ''_''], VNull),
                    ([CHR 0xFF, CHR ''_''], VBool True)]
       = [CHR 0xEF, CHR 0xBF, CHR 0xBD, CHR ''_'']
   \<and> take 4 [CHR 0xFF, CHR ''_''] \<noteq> [CHR 0xEF, CHR 0xBF, CHR 0xBD, CHR ''_'']
   \<and> simplify [([CHR 0xEF, CHR 0xBF, CHR 0xBD, CHR ''_'', CHR 0xFF, CHR ''_''], VNull),
                ([CHR 0xFF, CHR ''_''], VBool True)]
       = [([CHR 0xFF, CHR ''_''], VBool True)]"
proof -
  let ?k1 = "[CHR 0xEF, CHR 0xBF, CHR 0xBD, CHR ''_'', CHR 0xFF, CHR ''_'']"
  let ?k2 = "[CHR 0xFF, CHR ''_'']"
  let ?m = "[(?k1, VNull), (?k2, VBool True)]"
  have wf: "isMap ?m" by (simp add: isMap_def keys_def)
  have r1: "toRunes ?k1 = [0xFFFD, 0x5F, 0xFFFD, 0x5F]"
    by (simp add: rune_simps)
  have r2: "toRunes ?k2 = [0xFFFD, 0x5F]"
    by (simp add: rune_simps)
  have f: "firstKey ?m = ?k1" "lastKey ?m = ?k2"
    by (simp_all add: firstKey_def lastKey_def keys_def)
  have c: "cutAt ?m = 2"
    by (simp add: cutAt_def f r1 r2 scan.simps)
  have p: "commonPrefix ?m = [CHR 0xEF, CHR 0xBF, CHR 0xBD, CHR ''_'']"
    by (simp add: commonPrefix_eq c f r1 keySep_def rune_simps)
  have s: "simplify ?m = [(?k2, VBool True)]"
    by (simp add: simplify_def p TrimPrefix_def store_def)
  from wf p s show ?thesis by simp
qed

text \<open>
  Claim C10, amended. For every map whose keys are valid UTF-8, \<^verbatim>\<open>commonPrefix\<close>
  returns the empty string or a string that ends with the separator, and in both cases a
  prefix of every key; \<^verbatim>\<open>simplify\<close> removes exactly that prefix from every key and
  keeps the values, removing it is injective on the keys, and the output has distinct
  keys and as many entries as the input.
\<close>

theorem C10_prefix_invariant:
  assumes "isMap m" and "\<forall>k \<in> set (keys m). validUTF8 k"
  shows "(commonPrefix m = [] \<or> last (commonPrefix m) = CHR ''_'')
       \<and> (\<forall>k \<in> set (keys m). take (length (commonPrefix m)) k = commonPrefix m)
       \<and> keys (simplify m) = map (drop (length (commonPrefix m))) (keys m)
       \<and> map snd (simplify m) = map snd m
       \<and> inj_on (drop (length (commonPrefix m))) (set (keys m))
       \<and> isMap (simplify m)
       \<and> length (simplify m) = length m"
proof (intro conjI)
  show "commonPrefix m = [] \<or> last (commonPrefix m) = CHR ''_''"
    using commonPrefix_last [of m] by blast
  show pre: "\<forall>k \<in> set (keys m). take (length (commonPrefix m)) k = commonPrefix m"
  proof (cases "commonPrefix m = []")
    case True
    then show ?thesis by simp
  next
    case False
    show ?thesis
    proof
      fix k
      assume "k \<in> set (keys m)"
      from commonPrefix_prefix [OF False assms(2) this]
      show "take (length (commonPrefix m)) k = commonPrefix m" by auto
    qed
  qed
  show "keys (simplify m) = map (drop (length (commonPrefix m))) (keys m)"
    by (rule keys_simplify [OF assms])
  show "map snd (simplify m) = map snd m"
    by (rule values_simplify [OF assms])
  show "inj_on (drop (length (commonPrefix m))) (set (keys m))"
  proof (rule inj_onI)
    fix a b
    assume "a \<in> set (keys m)" "b \<in> set (keys m)"
      and d: "drop (length (commonPrefix m)) a = drop (length (commonPrefix m)) b"
    with pre have "take (length (commonPrefix m)) a = take (length (commonPrefix m)) b"
      by simp
    with d show "a = b"
      by (metis append_take_drop_id)
  qed
  show "isMap (simplify m)"
    by (rule isMap_simplify [OF assms])
  show "length (simplify m) = length m"
    by (simp add: simplify_strip [OF assms])
qed

theorem C10_prefix_invariant_witness:
  "isMap [([CHR 0xC3, CHR 0xA9, CHR ''_'', CHR ''a''], VNull),
          ([CHR 0xC3, CHR 0xA9, CHR ''_'', CHR 0xC3, CHR 0xA0], VBool True)]
   \<and> validUTF8 [CHR 0xC3, CHR 0xA9, CHR ''_'', CHR ''a'']
   \<and> validUTF8 [CHR 0xC3, CHR 0xA9, CHR ''_'', CHR 0xC3, CHR 0xA0]
   \<and> commonPrefix [([CHR 0xC3, CHR 0xA9, CHR ''_'', CHR ''a''], VNull),
          ([CHR 0xC3, CHR 0xA9, CHR ''_'', CHR 0xC3, CHR 0xA0], VBool True)]
       = [CHR 0xC3, CHR 0xA9, CHR ''_'']
   \<and> keys (simplify [([CHR 0xC3, CHR 0xA9, CHR ''_'', CHR ''a''], VNull),
          ([CHR 0xC3, CHR 0xA9, CHR ''_'', CHR 0xC3, CHR 0xA0], VBool True)])
       = [''a'', [CHR 0xC3, CHR 0xA0]]
   \<and> length (simplify [([CHR 0xC3, CHR 0xA9, CHR ''_'', CHR ''a''], VNull),
          ([CHR 0xC3, CHR 0xA9, CHR ''_'', CHR 0xC3, CHR 0xA0], VBool True)]) = 2"
proof -
  let ?m = "[([CHR 0xC3, CHR 0xA9, CHR ''_'', CHR ''a''], VNull),
          ([CHR 0xC3, CHR 0xA9, CHR ''_'', CHR 0xC3, CHR 0xA0], VBool True)]"
  have a: "isMap ?m" by (simp add: isMap_def keys_def)
  have v: "validUTF8 [CHR 0xC3, CHR 0xA9, CHR ''_'', CHR ''a'']"
    "validUTF8 [CHR 0xC3, CHR 0xA9, CHR ''_'', CHR 0xC3, CHR 0xA0]"
    by (simp_all add: validUTF8_def rune_simps)
  then have b: "\<forall>k \<in> set (keys ?m). validUTF8 k" by (simp add: keys_def)
  have r: "toRunes [CHR 0xC3, CHR 0xA9, CHR ''_'', CHR ''a''] = [0xE9, 0x5F, 0x61]"
    "toRunes [CHR 0xC3, CHR 0xA9, CHR ''_'', CHR 0xC3, CHR 0xA0] = [0xE9, 0x5F, 0xE0]"
    by (simp_all add: rune_simps)
  have f: "firstKey ?m = [CHR 0xC3, CHR 0xA9, CHR ''_'', CHR ''a'']"
    "lastKey ?m = [CHR 0xC3, CHR 0xA9, CHR ''_'', CHR 0xC3, CHR 0xA0]"
    by (simp_all add: firstKey_def lastKey_def keys_def)
  have "cutAt ?m = 2"
    by (simp add: cutAt_def f r scan.simps)
  then have c: "commonPrefix ?m = [CHR 0xC3, CHR 0xA9, CHR ''_'']"
    by (simp add: commonPrefix_eq f r keySep_def rune_simps)
  from C10_prefix_invariant [OF a b] a v c show ?thesis by (simp add: keys_def)
qed

section \<open>What the encoder is given\<close>


section \<open>What the decoding loop records\<close>







section \<open>Splitting a joined path\<close>




section \<open>The leaves of a document\<close>





















section \<open>From the recorded entries to the document\<close>








section \<open>Putting the leaves back, in any order\<close>







section \<open>Putting the leaves back in the order of the map\<close>








section \<open>Flattening, leaf by leaf\<close>







section \<open>Marshaling, then unmarshaling\<close>








section \<open>Flattening the same map in two orders\<close>



section \<open>Claim C2\<close>




end
